theory Spec2Isabelle
  imports Main "HOL-Library.Word"
begin

section \<open>Data model\<close>

text \<open>
  The repository holds two variants of one program: \<^verbatim>\<open>fraud-alert-bfs.cpp\<close> (breadth first
  search, direct connections kept in a \<^verbatim>\<open>map<long, bool>\<close> keyed by \<^verbatim>\<open>perfect_hash\<close>) and
  \<^verbatim>\<open>fraud-alert.cpp\<close> (Dijkstra with unit weights, direct connections kept in a
  \<^verbatim>\<open>set<Connection>\<close>). Definitions that exist in both files with different bodies carry the
  suffix \<open>_bfs\<close> or \<open>_dij\<close>; definitions whose bodies are the same in both files are
  given once.

  \<^verbatim>\<open>UID\<close> is a C++ \<^verbatim>\<open>int\<close>: a 32 bit pattern. A \<^verbatim>\<open>Vertex\<close> of
  \<^verbatim>\<open>adjacency_list<vecS, vecS, undirectedS>\<close> is an index into the vertex vector.
  Values of type \<^verbatim>\<open>int\<close> (32 bits) and \<^verbatim>\<open>long\<close> (64 bits) that the program computes
  with are integers with the wrap-around written out.
\<close>

type_synonym UID = "32 word"
type_synonym Vertex = nat
type_synonym Node = Vertex
type_synonym Connection = "Node \<times> Node"

record payment_t =
  time :: string
  id1 :: UID
  id2 :: UID
  amount :: string
  message :: string

type_synonym data_t = "payment_t list"

text \<open>
  A graph is the vector of the out-edge vectors of its vertices. The element type is the
  stored edge: the target vertex in the BFS variant, the target with the edge weight in
  the Dijkstra variant.
\<close>

type_synonym 'e adjacency_list = "'e list list"
type_synonym Graph_bfs = "Vertex adjacency_list"
type_synonym Graph_dij = "(Vertex \<times> int) adjacency_list"

text \<open>
  The process-wide state: the maps \<^verbatim>\<open>users\<close> and \<^verbatim>\<open>nodes\<close>, the graph \<^verbatim>\<open>g\<close> of
  \<^verbatim>\<open>main\<close> (passed by reference to every function that changes it), and the index of direct
  connections (\<^verbatim>\<open>friends\<close> in the BFS variant, \<^verbatim>\<open>connections\<close> in the Dijkstra variant).
\<close>

record ('e, 'i) paymo =
  users :: "UID \<rightharpoonup> Node"
  nodes :: "Node \<rightharpoonup> UID"
  graph :: "'e adjacency_list"
  index :: "'i"

type_synonym paymo_bfs = "(Vertex, int \<rightharpoonup> bool) paymo"
type_synonym paymo_dij = "(Vertex \<times> int, Connection set) paymo"

definition INT_MAX :: int where
  "INT_MAX = 2147483647"

definition to_int :: "int \<Rightarrow> int" where
  \<comment> \<open>conversion to a 32 bit \<^verbatim>\<open>int\<close>\<close>
  "to_int x = (x + 2 ^ 31) mod 2 ^ 32 - 2 ^ 31"

definition to_long :: "int \<Rightarrow> int" where
  \<comment> \<open>conversion to a 64 bit \<^verbatim>\<open>long\<close>\<close>
  "to_long x = (x + 2 ^ 63) mod 2 ^ 64 - 2 ^ 63"

definition to_ulong :: "int \<Rightarrow> int" where
  \<comment> \<open>conversion to a 64 bit \<^verbatim>\<open>unsigned long\<close>\<close>
  "to_ulong x = x mod 2 ^ 64"

section \<open>The graph operations of the adjacency list\<close>

definition num_vertices :: "'e adjacency_list \<Rightarrow> nat" where
  "num_vertices g = length g"

definition out_edges :: "'e adjacency_list \<Rightarrow> Vertex \<Rightarrow> 'e list" where
  \<comment> \<open>a vertex outside the vertex vector has no out-edges to enumerate\<close>
  "out_edges g u = (if u < length g then g ! u else [])"

definition add_vertex :: "'e adjacency_list \<Rightarrow> Vertex \<times> 'e adjacency_list" where
  "add_vertex g = (length g, g @ [[]])"

definition push_out_edge :: "Vertex \<Rightarrow> 'e \<Rightarrow> 'e adjacency_list \<Rightarrow> 'e adjacency_list" where
  "push_out_edge u e g = g[u := g ! u @ [e]]"

definition resize_for :: "Vertex \<Rightarrow> Vertex \<Rightarrow> 'e adjacency_list \<Rightarrow> 'e adjacency_list" where
  \<comment> \<open>\<^verbatim>\<open>add_edge\<close> on a \<^verbatim>\<open>vecS\<close> vertex list grows the vertex vector to hold both ends\<close>
  "resize_for u v g =
     (if max u v \<ge> length g then g @ replicate (max u v + 1 - length g) [] else g)"

definition add_edge_bfs :: "Vertex \<Rightarrow> Vertex \<Rightarrow> Graph_bfs \<Rightarrow> Graph_bfs" where
  \<comment> \<open>undirected: the edge is stored in the out-edge vector of both ends\<close>
  "add_edge_bfs u v g = push_out_edge v u (push_out_edge u v (resize_for u v g))"

definition add_edge_dij :: "Vertex \<Rightarrow> Vertex \<Rightarrow> int \<Rightarrow> Graph_dij \<Rightarrow> Graph_dij" where
  "add_edge_dij u v w g = push_out_edge v (u, w) (push_out_edge u (v, w) (resize_for u v g))"

definition edge_bfs :: "Vertex \<Rightarrow> Vertex \<Rightarrow> Graph_bfs \<Rightarrow> bool" where
  \<comment> \<open>the \<^verbatim>\<open>.second\<close> of \<^verbatim>\<open>edge(u, v, g)\<close>: a search of the out-edges of \<open>u\<close>\<close>
  "edge_bfs u v g = (v \<in> set (out_edges g u))"

definition edge_dij :: "Vertex \<Rightarrow> Vertex \<Rightarrow> Graph_dij \<Rightarrow> bool" where
  "edge_dij u v g = (v \<in> fst ` set (out_edges g u))"

definition closed_graph :: "Graph_bfs \<Rightarrow> bool" where
  \<comment> \<open>every stored target is a vertex of the graph\<close>
  "closed_graph g = list_all (list_all (\<lambda>v. v < length g)) g"

definition unit_weights :: "Graph_dij \<Rightarrow> bool" where
  \<comment> \<open>every stored edge has the weight 1\<close>
  "unit_weights g = list_all (list_all (\<lambda>e. snd e = 1)) g"

lemma unit_weights_at:
  "unit_weights g \<Longrightarrow> e \<in> set (out_edges g u) \<Longrightarrow> snd e = 1"
  by (auto simp: unit_weights_def out_edges_def list_all_iff split: if_splits)

lemma closed_graph_at:
  "closed_graph g \<Longrightarrow> v \<in> set (out_edges g u) \<Longrightarrow> v < length g"
  by (auto simp: closed_graph_def out_edges_def list_all_iff split: if_splits)

section \<open>The network builder\<close>

definition perfect_hash :: "int \<Rightarrow> int \<Rightarrow> int" where
  "perfect_hash a b =
     (let A = to_ulong (if a \<ge> 0 then to_long (2 * a) else to_long (- 2 * a - 1));
          B = to_ulong (if b \<ge> 0 then to_long (2 * b) else to_long (- 2 * b - 1));
          C = to_long ((if A \<ge> B then to_ulong (A * A + A + B) else to_ulong (A + B * B)) div 2)
      in if (a < 0 \<and> b < 0) \<or> (a \<ge> 0 \<and> b \<ge> 0) then C else to_long (- C - 1))"

definition create_connection :: "Node \<Rightarrow> Node \<Rightarrow> Connection" where
  "create_connection node1 node2 = (if node1 < node2 then (node1, node2) else (node2, node1))"

definition map_insert :: "('k \<rightharpoonup> 'v) \<Rightarrow> 'k \<Rightarrow> 'v \<Rightarrow> ('k \<rightharpoonup> 'v)" where
  \<comment> \<open>\<^verbatim>\<open>std::map::insert\<close> keeps the value of a key that is already there\<close>
  "map_insert m k v = (case m k of None \<Rightarrow> m(k \<mapsto> v) | Some _ \<Rightarrow> m)"

definition add_user :: "UID \<Rightarrow> ('e, 'i) paymo \<Rightarrow> Node \<times> ('e, 'i) paymo" where
  "add_user uid s =
     (case users s uid of
        Some node \<Rightarrow> (node, s)
      | None \<Rightarrow>
          (let (node, g') = add_vertex (graph s)
           in (node, s\<lparr>graph := g',
                       users := map_insert (users s) uid node,
                       nodes := map_insert (nodes s) node uid\<rparr>)))"

definition update_network_bfs :: "Connection \<Rightarrow> paymo_bfs \<Rightarrow> paymo_bfs" where
  "update_network_bfs connection s =
     (let v0 = fst connection; v1 = snd connection
      in if \<not> edge_bfs v0 v1 (graph s)
         then s\<lparr>graph := add_edge_bfs v0 v1 (graph s),
                index := (index s)(perfect_hash (to_int (int v0)) (to_int (int v1)) \<mapsto> True)\<rparr>
         else s)"

definition update_network_dij :: "Connection \<Rightarrow> paymo_dij \<Rightarrow> paymo_dij" where
  "update_network_dij connection s =
     (let weight = 1; v0 = fst connection; v1 = snd connection
      in if \<not> edge_dij v0 v1 (graph s)
         then s\<lparr>graph := add_edge_dij (fst connection) (snd connection) weight (graph s),
                index := insert connection (index s)\<rparr>
         else s)"

definition build_step_bfs :: "payment_t \<Rightarrow> paymo_bfs \<Rightarrow> paymo_bfs" where
  \<comment> \<open>the body of the loop of \<^verbatim>\<open>build_paymo_network\<close>\<close>
  "build_step_bfs payment s =
     (let (node1, s1) = add_user (id1 payment) s;
          (node2, s2) = add_user (id2 payment) s1
      in update_network_bfs (create_connection node1 node2) s2)"

definition build_step_dij :: "payment_t \<Rightarrow> paymo_dij \<Rightarrow> paymo_dij" where
  "build_step_dij payment s =
     (let (node1, s1) = add_user (id1 payment) s;
          (node2, s2) = add_user (id2 payment) s1
      in update_network_dij (create_connection node1 node2) s2)"

fun build_paymo_network_bfs :: "data_t \<Rightarrow> paymo_bfs \<Rightarrow> paymo_bfs" where
  "build_paymo_network_bfs [] s = s"
| "build_paymo_network_bfs (payment # rest) s =
     build_paymo_network_bfs rest (build_step_bfs payment s)"

fun build_paymo_network_dij :: "data_t \<Rightarrow> paymo_dij \<Rightarrow> paymo_dij" where
  "build_paymo_network_dij [] s = s"
| "build_paymo_network_dij (payment # rest) s =
     build_paymo_network_dij rest (build_step_dij payment s)"

section \<open>The direct-connection index\<close>

definition friends_lookup :: "(int \<rightharpoonup> bool) \<Rightarrow> int \<Rightarrow> bool \<times> (int \<rightharpoonup> bool)" where
  \<comment> \<open>\<^verbatim>\<open>friends[k]\<close> read: \<^verbatim>\<open>operator[]\<close> of \<^verbatim>\<open>std::map\<close> inserts a value-initialised entry
      for a key that is not there\<close>
  "friends_lookup m k = (case m k of None \<Rightarrow> (False, m(k \<mapsto> False)) | Some b \<Rightarrow> (b, m))"

definition is_connected_bfs :: "(int \<rightharpoonup> bool) \<Rightarrow> Connection \<Rightarrow> bool" where
  \<comment> \<open>the answer of the check \<^verbatim>\<open>friends[perfect_hash(connection.first, connection.second)]\<close>\<close>
  "is_connected_bfs m connection =
     fst (friends_lookup m (perfect_hash (to_int (int (fst connection))) (to_int (int (snd connection)))))"

definition is_connected_dij :: "Connection set \<Rightarrow> Connection \<Rightarrow> bool" where
  \<comment> \<open>\<^verbatim>\<open>connections.find(connection) != connections.end()\<close>\<close>
  "is_connected_dij cs connection = (connection \<in> cs)"

section \<open>The classifier\<close>

text \<open>The three lines written to the output files for one payment.\<close>

definition output1 :: "int \<Rightarrow> string" where
  "output1 friendship = (if friendship > 1 then ''Unverified'' else ''Trusted'')"

definition output2 :: "int \<Rightarrow> string" where
  "output2 friendship = (if friendship > 2 then ''Unverified'' else ''Trusted'')"

definition output3 :: "int \<Rightarrow> string" where
  "output3 friendship = (if friendship > 4 then ''Unverified'' else ''Trusted'')"

definition classify :: "int \<Rightarrow> string \<times> string \<times> string" where
  "classify friendship = (output1 friendship, output2 friendship, output3 friendship)"

section \<open>Breadth first search (BFS variant)\<close>

text \<open>
  \<^verbatim>\<open>breadth_first_search\<close> of the Boost Graph Library, with the visitor
  \<^verbatim>\<open>bfs_distance_visitor\<close> of the program: every vertex starts white; the start vertex is
  coloured gray and enqueued; while the queue is not empty its front vertex \<open>u\<close> is taken,
  each out-edge \<open>(u, v)\<close> is examined in the order of the out-edge vector, a white target
  is a tree edge (the visitor's \<^verbatim>\<open>tree_edge\<close> runs, then \<open>v\<close> is coloured gray and
  enqueued), and after its out-edges \<open>u\<close> is coloured black. The visitor's
  \<^verbatim>\<open>tree_edge\<close> stores \<^verbatim>\<open>d[u] + 1\<close> in \<^verbatim>\<open>d[v]\<close> and throws when \<open>v\<close> is the stop
  vertex; \<open>Inl\<close> is that exception, carrying the distance vector as it stands.
\<close>

datatype default_color_type = white_color | gray_color | black_color

definition get_color :: "default_color_type list \<Rightarrow> Vertex \<Rightarrow> default_color_type" where
  \<comment> \<open>a vertex outside the colour map is never taken for an undiscovered one\<close>
  "get_color color v = (if v < length color then color ! v else black_color)"

lemma get_color_update:
  "get_color (color[v := c]) a = (if a = v \<and> v < length color then c else get_color color a)"
  by (auto simp: get_color_def nth_list_update)

type_synonym search_state = "int list \<times> default_color_type list \<times> Vertex list"

fun bfs_out_edges :: "Vertex \<Rightarrow> Vertex \<Rightarrow> Vertex list \<Rightarrow> search_state \<Rightarrow> int list + search_state" where
  "bfs_out_edges stop_vertex u [] s = Inr s"
| "bfs_out_edges stop_vertex u (v # es) (d, color, Q) =
     (if get_color color v = white_color
      then (let d' = d[v := to_int (d ! u + 1)]
            in if v = stop_vertex then Inl d'
               else bfs_out_edges stop_vertex u es (d', color[v := gray_color], Q @ [v]))
      else bfs_out_edges stop_vertex u es (d, color, Q))"

definition whites :: "default_color_type list \<Rightarrow> nat" where
  "whites color = length (filter (\<lambda>c. c = white_color) color)"

lemma whites_update_gray:
  "get_color color v = white_color \<Longrightarrow> Suc (whites (color[v := gray_color])) = whites color"
proof (induction color arbitrary: v)
  case Nil
  then show ?case by (simp add: get_color_def)
next
  case (Cons c cs)
  show ?case
  proof (cases v)
    case 0
    with Cons.prems show ?thesis by (simp add: get_color_def whites_def)
  next
    case (Suc n)
    with Cons.prems have "get_color cs n = white_color"
      by (simp add: get_color_def split: if_splits)
    from Cons.IH [OF this] Suc show ?thesis by (simp add: whites_def)
  qed
qed

lemma whites_update_black: "whites (color[u := black_color]) \<le> whites color"
proof (induction color arbitrary: u)
  case Nil
  then show ?case by simp
next
  case (Cons c cs)
  then show ?case by (cases u) (auto simp: whites_def le_SucI)
qed

lemma bfs_out_edges_measure:
  "bfs_out_edges stop_vertex u es (d, color, Q) = Inr (d', color', Q')
   \<Longrightarrow> whites color' + length Q' = whites color + length Q"
proof (induction es arbitrary: d color Q)
  case Nil
  then show ?case by simp
next
  case (Cons v es)
  show ?case
  proof (cases "get_color color v = white_color")
    case True
    with Cons.prems have ne: "v \<noteq> stop_vertex"
      by (auto simp: Let_def split: if_splits)
    with True Cons.prems
    have "bfs_out_edges stop_vertex u es (d[v := to_int (d ! u + 1)], color[v := gray_color], Q @ [v])
          = Inr (d', color', Q')"
      by (simp add: Let_def)
    from Cons.IH [OF this] whites_update_gray [OF True] show ?thesis by simp
  next
    case False
    with Cons.prems have "bfs_out_edges stop_vertex u es (d, color, Q) = Inr (d', color', Q')"
      by simp
    from Cons.IH [OF this] show ?thesis .
  qed
qed

function bfs_visit_loop ::
  "Graph_bfs \<Rightarrow> Vertex \<Rightarrow> int list \<Rightarrow> default_color_type list \<Rightarrow> Vertex list \<Rightarrow> int list" where
  "bfs_visit_loop g stop_vertex d color Q =
     (case Q of
        [] \<Rightarrow> d
      | u # Q' \<Rightarrow>
          (case bfs_out_edges stop_vertex u (out_edges g u) (d, color, Q') of
             Inl d' \<Rightarrow> d'
           | Inr (d', color', Q'') \<Rightarrow>
               bfs_visit_loop g stop_vertex d' (color'[u := black_color]) Q''))"
  by pat_completeness auto
termination
proof (relation "measure (\<lambda>(g, stop_vertex, d, color, Q). whites color + length Q)", goal_cases)
  case 1
  then show ?case by simp
next
  case (2 g stop_vertex d color Q u Q' r d' rest color' Q'')
  then have "bfs_out_edges stop_vertex u (out_edges g u) (d, color, Q') = Inr (d', color', Q'')"
    by simp
  from bfs_out_edges_measure [OF this] whites_update_black [of color' u] 2
  show ?case by simp
qed

declare bfs_visit_loop.simps [simp del]

definition breadth_first_search :: "Graph_bfs \<Rightarrow> Vertex \<Rightarrow> Vertex \<Rightarrow> int list \<Rightarrow> int list" where
  "breadth_first_search g s stop_vertex d =
     bfs_visit_loop g stop_vertex d
       ((replicate (num_vertices g) white_color)[s := gray_color]) [s]"

definition friendship_degree_bfs :: "Connection \<Rightarrow> Graph_bfs \<Rightarrow> int" where
  \<comment> \<open>the exception of the visitor is caught and ignored: either way \<^verbatim>\<open>d[stop_node]\<close> is
      returned\<close>
  "friendship_degree_bfs connection g =
     (let start_node = fst connection;
          stop_node = snd connection;
          d = (replicate (num_vertices g) INT_MAX)[start_node := 0]
      in breadth_first_search g start_node stop_node d ! stop_node)"

section \<open>Dijkstra with unit weights (Dijkstra variant)\<close>

text \<open>
  \<^verbatim>\<open>dijkstra_shortest_paths\<close> of the Boost Graph Library: every distance is set to the
  infinity \<^verbatim>\<open>numeric_limits<int>::max\<close> and every vertex to white, the distance of the
  start vertex to zero; the start vertex is coloured gray and pushed on the priority queue;
  while the queue is not empty a vertex \<open>u\<close> of least distance is taken, each out-edge is
  examined (a negative weight throws \<^verbatim>\<open>negative_edge\<close>), an edge to a white or gray target is
  relaxed with the combine function \<^verbatim>\<open>closed_plus\<close>, a white target is coloured gray and
  pushed, and after its out-edges \<open>u\<close> is coloured black and \<^verbatim>\<open>finish_vertex\<close> runs, which
  in \<^verbatim>\<open>early_stop_visitor\<close> throws when \<open>u\<close> is the target. The predecessor map is
  written and never read by the program; it is left out.

  The priority queue is the list of the queued vertices in the order they were pushed;
  the vertex taken is the first one of least distance. The library's heap may take another
  vertex of the same distance; \<open>dij_any_order\<close> below is the search with any such choice,
  and the results are proved for it as well.
\<close>

definition closed_plus :: "int \<Rightarrow> int \<Rightarrow> int" where
  "closed_plus a b =
     (if a = INT_MAX then INT_MAX else if b = INT_MAX then INT_MAX else to_int (a + b))"

definition relax_target :: "Vertex \<Rightarrow> Vertex \<Rightarrow> int \<Rightarrow> int list \<Rightarrow> int list" where
  "relax_target u v w d =
     (let d_u = d ! u; d_v = d ! v
      in if closed_plus d_u w < d_v then d[v := closed_plus d_u w] else d)"

text \<open>\<open>Inl\<close> is the exception \<^verbatim>\<open>negative_edge\<close>.\<close>

fun dij_out_edges :: "Vertex \<Rightarrow> (Vertex \<times> int) list \<Rightarrow> search_state \<Rightarrow> unit + search_state" where
  "dij_out_edges u [] s = Inr s"
| "dij_out_edges u ((v, w) # es) (d, color, Q) =
     (if w < 0 then Inl ()
      else (case get_color color v of
              white_color \<Rightarrow>
                dij_out_edges u es (relax_target u v w d, color[v := gray_color], Q @ [v])
            | gray_color \<Rightarrow> dij_out_edges u es (relax_target u v w d, color, Q)
            | black_color \<Rightarrow> dij_out_edges u es (d, color, Q)))"

lemma dij_out_edges_measure:
  "dij_out_edges u es (d, color, Q) = Inr (d', color', Q')
   \<Longrightarrow> whites color' + length Q' = whites color + length Q"
proof (induction es arbitrary: d color Q)
  case Nil
  then show ?case by simp
next
  case (Cons e es)
  obtain v w where e: "e = (v, w)" by (cases e)
  from Cons.prems e have w: "\<not> w < 0" by (auto split: if_splits)
  show ?case
  proof (cases "get_color color v")
    case white_color
    with Cons.prems e w
    have "dij_out_edges u es (relax_target u v w d, color[v := gray_color], Q @ [v])
          = Inr (d', color', Q')"
      by simp
    from Cons.IH [OF this] whites_update_gray [OF white_color] show ?thesis by simp
  next
    case gray_color
    with Cons.prems e w
    have "dij_out_edges u es (relax_target u v w d, color, Q) = Inr (d', color', Q')"
      by simp
    from Cons.IH [OF this] show ?thesis .
  next
    case black_color
    with Cons.prems e w
    have "dij_out_edges u es (d, color, Q) = Inr (d', color', Q')"
      by simp
    from Cons.IH [OF this] show ?thesis .
  qed
qed

text \<open>
  The result \<open>None\<close> is the exception \<^verbatim>\<open>negative_edge\<close>, which \<^verbatim>\<open>friendship_degree\<close> does
  not catch; \<open>Some d\<close> is the distance vector after the search returned or after
  \<^verbatim>\<open>found_exception\<close> was caught.
\<close>

function dij_visit_loop ::
  "Graph_dij \<Rightarrow> Vertex option \<Rightarrow> int list \<Rightarrow> default_color_type list \<Rightarrow> Vertex list
   \<Rightarrow> int list option" where
  "dij_visit_loop g target_node d color Q =
     (if Q = [] then Some d
      else (let u = arg_min_list (\<lambda>v. d ! v) Q
            in (case dij_out_edges u (out_edges g u) (d, color, remove1 u Q) of
                  Inl _ \<Rightarrow> None
                | Inr (d', color', Q') \<Rightarrow>
                    if target_node = Some u then Some d'
                    else dij_visit_loop g target_node d' (color'[u := black_color]) Q')))"
  by pat_completeness auto
termination
proof (relation "measure (\<lambda>(g, target_node, d, color, Q). whites color + length Q)", goal_cases)
  case 1
  then show ?case by simp
next
  case (2 g target_node d color Q u r d' rest color' Q')
  then have run: "dij_out_edges u (out_edges g u) (d, color, remove1 u Q) = Inr (d', color', Q')"
    by simp
  from 2 have "u \<in> set Q" by (simp add: arg_min_list_in)
  then have "Suc (length (remove1 u Q)) = length Q"
    using length_pos_if_in_set [of u Q] by (simp add: length_remove1)
  with dij_out_edges_measure [OF run] whites_update_black [of color' u]
  show ?case by simp
qed

declare dij_visit_loop.simps [simp del]

definition dijkstra_shortest_paths :: "Graph_dij \<Rightarrow> Vertex \<Rightarrow> Vertex option \<Rightarrow> int list option" where
  "dijkstra_shortest_paths g s target_node =
     dij_visit_loop g target_node
       ((replicate (num_vertices g) INT_MAX)[s := 0])
       ((replicate (num_vertices g) white_color)[s := gray_color]) [s]"

definition friendship_degree_dij :: "Connection \<Rightarrow> Graph_dij \<Rightarrow> bool \<Rightarrow> int option" where
  "friendship_degree_dij connection g use_early_stop =
     (let start_node = fst connection;
          stop_node = snd connection
      in map_option (\<lambda>d. d ! stop_node)
           (if use_early_stop then dijkstra_shortest_paths g start_node (Some stop_node)
            else dijkstra_shortest_paths g start_node None))"

section \<open>The main loop\<close>

text \<open>
  One pass of the loop of \<^verbatim>\<open>main\<close> over the streamed payments: the degree that is printed
  and classified, and the state afterwards.
\<close>

definition stream_step_bfs :: "payment_t \<Rightarrow> paymo_bfs \<Rightarrow> int \<times> paymo_bfs" where
  "stream_step_bfs payment s =
     (let (node1, s1) = add_user (id1 payment) s;
          (node2, s2) = add_user (id2 payment) s1;
          connection = create_connection node1 node2;
          (direct, friends') =
             friends_lookup (index s2)
               (perfect_hash (to_int (int (fst connection))) (to_int (int (snd connection))));
          s3 = s2\<lparr>index := friends'\<rparr>
      in if direct then (1, s3)
         else (friendship_degree_bfs connection (graph s3), update_network_bfs connection s3))"

definition stream_step_dij :: "payment_t \<Rightarrow> paymo_dij \<Rightarrow> (int \<times> paymo_dij) option" where
  \<comment> \<open>\<open>None\<close>: the program ended on the exception that \<^verbatim>\<open>friendship_degree\<close> does not catch\<close>
  "stream_step_dij payment s =
     (let (node1, s1) = add_user (id1 payment) s;
          (node2, s2) = add_user (id2 payment) s1;
          connection = create_connection node1 node2
      in if is_connected_dij (index s2) connection then Some (1, s2)
         else (let use_early_stop = True
               in (case friendship_degree_dij connection (graph s2) use_early_stop of
                     None \<Rightarrow> None
                   | Some friendship \<Rightarrow> Some (friendship, update_network_dij connection s2))))"

fun main_loop_bfs :: "data_t \<Rightarrow> paymo_bfs \<Rightarrow> (int \<times> string \<times> string \<times> string) list \<times> paymo_bfs" where
  "main_loop_bfs [] s = ([], s)"
| "main_loop_bfs (payment # rest) s =
     (let (friendship, s') = stream_step_bfs payment s;
          (out, s'') = main_loop_bfs rest s'
      in ((friendship, classify friendship) # out, s''))"

fun main_loop_dij ::
  "data_t \<Rightarrow> paymo_dij \<Rightarrow> ((int \<times> string \<times> string \<times> string) list \<times> paymo_dij) option" where
  "main_loop_dij [] s = Some ([], s)"
| "main_loop_dij (payment # rest) s =
     (case stream_step_dij payment s of
        None \<Rightarrow> None
      | Some (friendship, s') \<Rightarrow>
          (case main_loop_dij rest s' of
             None \<Rightarrow> None
           | Some (out, s'') \<Rightarrow> Some ((friendship, classify friendship) # out, s'')))"

definition empty_bfs :: paymo_bfs where
  "empty_bfs = \<lparr>users = Map.empty, nodes = Map.empty, graph = [], index = Map.empty\<rparr>"

definition empty_dij :: paymo_dij where
  "empty_dij = \<lparr>users = Map.empty, nodes = Map.empty, graph = [], index = {}\<rparr>"

definition pay :: "UID \<Rightarrow> UID \<Rightarrow> payment_t" where
  \<comment> \<open>a payment record between two users; the other fields do not reach the graph\<close>
  "pay a b = \<lparr>time = [], id1 = a, id2 = b, amount = [], message = []\<rparr>"

section \<open>The classifier: thresholds\<close>

text \<open>
  C6. The verdicts depend on the degree alone, with fixed thresholds: the first output is
  "Trusted" exactly when the degree is at most 1, the second exactly when it is at most 2,
  the third exactly when it is at most 4, and "Unverified" otherwise; degree 1 is trusted
  on all three tiers and the unreachable sentinel \<open>INT_MAX\<close> is unverified on all three.
\<close>

theorem classify_thresholds:
  "classify d = (if d \<le> 1 then ''Trusted'' else ''Unverified'',
                 if d \<le> 2 then ''Trusted'' else ''Unverified'',
                 if d \<le> 4 then ''Trusted'' else ''Unverified'')
   \<and> classify 1 = (''Trusted'', ''Trusted'', ''Trusted'')
   \<and> classify INT_MAX = (''Unverified'', ''Unverified'', ''Unverified'')"
  by (simp add: classify_def output1_def output2_def output3_def INT_MAX_def)

section \<open>The index read of the BFS variant\<close>

text \<open>
  C10. In the BFS variant the check for a direct connection reads \<^verbatim>\<open>friends\<close> with
  \<^verbatim>\<open>operator[]\<close>: a key that is not in the map is inserted with the value false, and after
  the read the map answers every key as it did before.
\<close>

theorem friends_lookup_frame:
  "(m k = None \<longrightarrow> snd (friends_lookup m k) k = Some False \<and> fst (friends_lookup m k) = False)
   \<and> (\<forall>k'. fst (friends_lookup (snd (friends_lookup m k)) k') = fst (friends_lookup m k'))
   \<and> (\<forall>c. is_connected_bfs (snd (friends_lookup m k)) c = is_connected_bfs m c)"
  by (auto simp: friends_lookup_def is_connected_bfs_def split: option.splits)

theorem friends_lookup_frame_witness:
  "Map.empty (5::int) = (None :: bool option)
   \<and> snd (friends_lookup Map.empty 5) 5 = Some False
   \<and> fst (friends_lookup Map.empty 5) = False
   \<and> fst (friends_lookup (snd (friends_lookup Map.empty 5)) 5) = fst (friends_lookup Map.empty 5)"
  using friends_lookup_frame [of Map.empty 5] by simp

section \<open>The scenario of three historic payments\<close>

definition scenario_historic :: data_t where
  "scenario_historic = [pay 1 2, pay 2 3, pay 3 4]"

text \<open>
  C7, as the claim states it, fails: after the payment between users 1 and 3 has been
  evaluated its edge is part of the graph, so the payment between users 1 and 4 that
  follows is at degree 2 (through user 3), not 3.
\<close>

theorem scenario_second_payment_degree:
  "fst (stream_step_bfs (pay 1 4)
          (snd (stream_step_bfs (pay 1 3) (build_paymo_network_bfs scenario_historic empty_bfs))))
   \<noteq> 3"
  by code_simp

text \<open>
  C7, amended. After the historic payments (1,2), (2,3), (3,4) have been loaded into the
  empty system, the streamed payments (1,3), (1,4), (1,5) in this order give: degree 2
  with verdicts unverified, trusted, trusted; then degree 2 again with unverified,
  trusted, trusted (the edge between 1 and 3 is already there); then the sentinel
  \<open>INT_MAX\<close> with all three unverified. The payment (1,4) streamed first after the load
  gives degree 3 with unverified, unverified, trusted. Both variants agree.
\<close>

theorem scenario_three_payments:
  "fst (main_loop_bfs [pay 1 3, pay 1 4, pay 1 5]
          (build_paymo_network_bfs scenario_historic empty_bfs))
     = [(2, ''Unverified'', ''Trusted'', ''Trusted''),
        (2, ''Unverified'', ''Trusted'', ''Trusted''),
        (INT_MAX, ''Unverified'', ''Unverified'', ''Unverified'')]
   \<and> map_option fst (main_loop_dij [pay 1 3, pay 1 4, pay 1 5]
          (build_paymo_network_dij scenario_historic empty_dij))
     = Some [(2, ''Unverified'', ''Trusted'', ''Trusted''),
             (2, ''Unverified'', ''Trusted'', ''Trusted''),
             (INT_MAX, ''Unverified'', ''Unverified'', ''Unverified'')]
   \<and> fst (main_loop_bfs [pay 1 4] (build_paymo_network_bfs scenario_historic empty_bfs))
     = [(3, ''Unverified'', ''Unverified'', ''Trusted'')]
   \<and> map_option fst (main_loop_dij [pay 1 4]
          (build_paymo_network_dij scenario_historic empty_dij))
     = Some [(3, ''Unverified'', ''Unverified'', ''Trusted'')]"
  by code_simp

section \<open>The search from a node to itself\<close>

lemma bfs_out_edges_keeps:
  assumes "get_color color a \<noteq> white_color"
  shows "(bfs_out_edges stop_vertex u es (d, color, Q) = Inl d' \<longrightarrow> d' ! a = d ! a)
       \<and> (bfs_out_edges stop_vertex u es (d, color, Q) = Inr (d', color', Q')
            \<longrightarrow> d' ! a = d ! a \<and> get_color color' a \<noteq> white_color)"
  using assms
proof (induction es arbitrary: d color Q)
  case Nil
  then show ?case by auto
next
  case (Cons v es)
  show ?case
  proof (cases "get_color color v = white_color")
    case True
    with Cons.prems have va: "v \<noteq> a" by auto
    with Cons.prems have "get_color (color[v := gray_color]) a \<noteq> white_color"
      by (simp add: get_color_update)
    from Cons.IH [OF this, of "d[v := to_int (d ! u + 1)]" "Q @ [v]"] True va
    show ?thesis by (auto simp: Let_def)
  next
    case False
    with Cons.IH [OF Cons.prems, of d Q] show ?thesis by simp
  qed
qed

lemma bfs_visit_loop_Nil: "bfs_visit_loop g stop_vertex d color [] = d"
  by (simp add: bfs_visit_loop.simps)

lemma bfs_visit_loop_Inl:
  "bfs_out_edges stop_vertex u (out_edges g u) (d, color, Q') = Inl d'
   \<Longrightarrow> bfs_visit_loop g stop_vertex d color (u # Q') = d'"
  by (simp add: bfs_visit_loop.simps)

lemma bfs_visit_loop_Inr:
  "bfs_out_edges stop_vertex u (out_edges g u) (d, color, Q') = Inr (d', color', Q'')
   \<Longrightarrow> bfs_visit_loop g stop_vertex d color (u # Q')
       = bfs_visit_loop g stop_vertex d' (color'[u := black_color]) Q''"
  by (simp add: bfs_visit_loop.simps)

lemma bfs_visit_loop_keeps:
  "get_color color a \<noteq> white_color \<Longrightarrow> bfs_visit_loop g stop_vertex d color Q ! a = d ! a"
proof (induction g stop_vertex d color Q rule: bfs_visit_loop.induct)
  case (1 g stop_vertex d color Q)
  show ?case
  proof (cases Q)
    case Nil
    then show ?thesis by (simp add: bfs_visit_loop_Nil)
  next
    case (Cons u Q')
    show ?thesis
    proof (cases "bfs_out_edges stop_vertex u (out_edges g u) (d, color, Q')")
      case (Inl d')
      with bfs_out_edges_keeps [OF "1.prems", of stop_vertex u "out_edges g u" d Q' d'] Cons
      show ?thesis by (simp add: bfs_visit_loop_Inl)
    next
      case (Inr r)
      obtain d' color' Q'' where r: "r = (d', color', Q'')" by (cases r)
      from bfs_out_edges_keeps [OF "1.prems", of stop_vertex u "out_edges g u" d Q' d' color' Q'']
        Inr r
      have keep: "d' ! a = d ! a" and col: "get_color color' a \<noteq> white_color" by simp_all
      from col have "get_color (color'[u := black_color]) a \<noteq> white_color"
        by (simp add: get_color_update)
      from "1.IH" [OF Cons Inr r [symmetric] refl this] Cons Inr r keep
      show ?thesis by (simp add: bfs_visit_loop_Inr)
    qed
  qed
qed

lemma friendship_degree_bfs_self:
  assumes "a < num_vertices g"
  shows "friendship_degree_bfs (a, a) g = 0"
proof -
  from assms have "get_color ((replicate (num_vertices g) white_color)[a := gray_color]) a
                   \<noteq> white_color"
    by (simp add: get_color_def)
  from bfs_visit_loop_keeps [OF this] assms show ?thesis
    by (simp add: friendship_degree_bfs_def breadth_first_search_def)
qed

lemma closed_plus_unit: "closed_plus 0 1 = 1"
  by (simp add: closed_plus_def INT_MAX_def to_int_def)

lemma dij_out_edges_self:
  assumes "d ! a = 0" and "\<forall>e \<in> set es. snd e = 1"
  shows "\<exists>d' color' Q'. dij_out_edges a es (d, color, Q) = Inr (d', color', Q') \<and> d' ! a = 0"
  using assms
proof (induction es arbitrary: d color Q)
  case Nil
  then show ?case by simp
next
  case (Cons e es)
  obtain v where e: "e = (v, 1)" using Cons.prems(2) by (cases e) auto
  have relax: "relax_target a v 1 d ! a = 0"
    using Cons.prems(1) closed_plus_unit
    by (cases "v = a") (simp_all add: relax_target_def Let_def)
  from Cons.prems(2) have rest: "\<forall>e \<in> set es. snd e = 1" by simp
  show ?case
  proof (cases "get_color color v")
    case white_color
    with e Cons.IH [OF relax rest] show ?thesis by simp
  next
    case gray_color
    with e Cons.IH [OF relax rest] show ?thesis by simp
  next
    case black_color
    with e Cons.IH [OF Cons.prems(1) rest] show ?thesis by simp
  qed
qed

lemma friendship_degree_dij_self:
  assumes "a < num_vertices g" and "\<forall>e \<in> set (out_edges g a). snd e = 1"
  shows "friendship_degree_dij (a, a) g True = Some 0"
proof -
  let ?d = "(replicate (num_vertices g) INT_MAX)[a := 0]"
  let ?c = "(replicate (num_vertices g) white_color)[a := gray_color]"
  from assms(1) have "?d ! a = 0" by simp
  from dij_out_edges_self [OF this assms(2), of ?c "[]"]
  obtain d' color' Q' where
    "dij_out_edges a (out_edges g a) (?d, ?c, []) = Inr (d', color', Q')" and "d' ! a = 0"
    by blast
  then show ?thesis
    by (simp add: friendship_degree_dij_def dijkstra_shortest_paths_def dij_visit_loop.simps)
qed

text \<open>
  C9, as the claim states it, fails: the search from a node to itself does not return the
  unreachable sentinel, in either variant.
\<close>

theorem self_search_not_unreachable:
  "friendship_degree_bfs (0, 0) [[]] \<noteq> INT_MAX
   \<and> friendship_degree_dij (0, 0) [[]] True \<noteq> Some INT_MAX"
  by code_simp

text \<open>
  C9, amended. For every node \<open>a\<close> of the graph, the search invoked with start and target
  both \<open>a\<close> returns degree 0: the distance of the start node from itself, which the search
  sets before it runs. (In the Dijkstra variant the edges carry the weight 1, as every edge
  that \<^verbatim>\<open>update_network\<close> adds does.)
\<close>

theorem self_search_zero:
  assumes "a < num_vertices g" and "a' < num_vertices g'" and "unit_weights g'"
  shows "friendship_degree_bfs (a, a) g = 0 \<and> friendship_degree_dij (a', a') g' True = Some 0"
proof -
  from assms(2, 3) have "\<forall>e \<in> set (out_edges g' a'). snd e = 1"
    by (simp add: unit_weights_at)
  from friendship_degree_bfs_self [OF assms(1)] friendship_degree_dij_self [OF assms(2) this]
  show ?thesis by simp
qed

theorem self_search_zero_witness:
  "(1::nat) < num_vertices [[1], [0, 2], [1 :: nat]]
   \<and> (1::nat) < num_vertices [[(1, 1)], [(0, 1), (2, 1)], [(1 :: nat, 1 :: int)]]
   \<and> unit_weights [[(1, 1)], [(0, 1), (2, 1)], [(1, 1)]]
   \<and> friendship_degree_bfs (1, 1) [[1], [0, 2], [1]] = 0
   \<and> friendship_degree_dij (1, 1) [[(1, 1)], [(0, 1), (2, 1)], [(1, 1)]] True = Some 0"
proof -
  have h1: "(1::nat) < num_vertices [[1], [0, 2], [1 :: nat]]"
    by (simp add: num_vertices_def)
  have h2: "(1::nat) < num_vertices [[(1, 1)], [(0, 1), (2, 1)], [(1 :: nat, 1 :: int)]]"
    by (simp add: num_vertices_def)
  have h3: "unit_weights [[(1, 1)], [(0, 1), (2, 1)], [(1, 1)]]"
    by (simp add: unit_weights_def)
  from self_search_zero [OF h1 h2 h3] h1 h2 h3 show ?thesis by blast
qed

section \<open>The effect of the graph operations\<close>

definition targets :: "Graph_dij \<Rightarrow> Graph_bfs" where
  \<comment> \<open>the graph of the Dijkstra variant without its weights\<close>
  "targets g = map (map fst) g"

definition multiplicity :: "Graph_bfs \<Rightarrow> Vertex \<Rightarrow> Vertex \<Rightarrow> nat" where
  \<comment> \<open>how many stored out-edges lead from \<open>u\<close> to \<open>v\<close>\<close>
  "multiplicity g u v = count_list (out_edges g u) v"

lemma out_edges_resize_for: "out_edges (resize_for u v g) x = out_edges g x"
  by (auto simp: out_edges_def resize_for_def nth_append)

lemma length_resize_for: "length (resize_for u v g) = max (length g) (Suc (max u v))"
  by (auto simp: resize_for_def)

lemma out_edges_push_out_edge:
  "out_edges (push_out_edge u e g) x
   = (if x = u \<and> u < length g then out_edges g x @ [e] else out_edges g x)"
  by (auto simp: out_edges_def push_out_edge_def)

lemma length_push_out_edge: "length (push_out_edge u e g) = length g"
  by (simp add: push_out_edge_def)

lemma ends_in_resize_for: "u < length (resize_for u v g)" "v < length (resize_for u v g)"
  by (auto simp: length_resize_for)

lemma out_edges_add_edge_bfs:
  "out_edges (add_edge_bfs u v g) x
   = out_edges g x @ (if x = u then [v] else []) @ (if x = v then [u] else [])"
  by (simp add: add_edge_bfs_def out_edges_push_out_edge length_push_out_edge
        ends_in_resize_for out_edges_resize_for)

lemma out_edges_add_edge_dij:
  "out_edges (add_edge_dij u v w g) x
   = out_edges g x @ (if x = u then [(v, w)] else []) @ (if x = v then [(u, w)] else [])"
  by (simp add: add_edge_dij_def out_edges_push_out_edge length_push_out_edge
        ends_in_resize_for out_edges_resize_for)

lemma length_add_edge_bfs: "length (add_edge_bfs u v g) = max (length g) (Suc (max u v))"
  by (simp add: add_edge_bfs_def length_push_out_edge length_resize_for)

lemma length_add_edge_dij: "length (add_edge_dij u v w g) = max (length g) (Suc (max u v))"
  by (simp add: add_edge_dij_def length_push_out_edge length_resize_for)

lemma edge_bfs_add_edge_bfs:
  "edge_bfs a b (add_edge_bfs u v g) = (edge_bfs a b g \<or> (a = u \<and> b = v) \<or> (a = v \<and> b = u))"
  by (auto simp: edge_bfs_def out_edges_add_edge_bfs)

lemma edge_dij_add_edge_dij:
  "edge_dij a b (add_edge_dij u v w g) = (edge_dij a b g \<or> (a = u \<and> b = v) \<or> (a = v \<and> b = u))"
  by (auto simp: edge_dij_def out_edges_add_edge_dij)

lemma multiplicity_add_edge_bfs:
  "multiplicity (add_edge_bfs u v g) a b
   = multiplicity g a b + (if a = u \<and> b = v then 1 else 0) + (if a = v \<and> b = u then 1 else 0)"
proof -
  have "count_list (xs @ ys @ zs) b = count_list xs b + count_list ys b + count_list zs b"
    for xs ys zs :: "nat list"
    by (induction xs) (induction ys, simp_all)
  then show ?thesis
    unfolding multiplicity_def out_edges_add_edge_bfs by (cases "a = u"; cases "a = v") simp_all
qed

lemma out_edges_targets: "out_edges (targets g) u = map fst (out_edges g u)"
  by (simp add: out_edges_def targets_def)

lemma edge_dij_targets: "edge_dij u v g = edge_bfs u v (targets g)"
  by (simp add: edge_dij_def edge_bfs_def out_edges_targets)

lemma length_targets: "length (targets g) = length g"
  by (simp add: targets_def)

lemma targets_add_edge_dij: "targets (add_edge_dij u v w g) = add_edge_bfs u v (targets g)"
proof (rule nth_equalityI)
  show "length (targets (add_edge_dij u v w g)) = length (add_edge_bfs u v (targets g))"
    by (simp add: length_targets length_add_edge_dij length_add_edge_bfs)
next
  fix i
  assume "i < length (targets (add_edge_dij u v w g))"
  then have i: "i < length (add_edge_dij u v w g)" "i < length (add_edge_bfs u v (targets g))"
    by (simp_all add: length_targets length_add_edge_dij length_add_edge_bfs)
  have "out_edges (targets (add_edge_dij u v w g)) i = out_edges (add_edge_bfs u v (targets g)) i"
    by (simp add: out_edges_targets out_edges_add_edge_dij out_edges_add_edge_bfs)
  with i show "targets (add_edge_dij u v w g) ! i = add_edge_bfs u v (targets g) ! i"
    by (simp add: out_edges_def length_targets)
qed

section \<open>Idempotence of the edge insertion\<close>

lemma update_network_bfs_twice:
  "update_network_bfs c (update_network_bfs c s) = update_network_bfs c s"
  by (simp add: update_network_bfs_def Let_def edge_bfs_add_edge_bfs)

lemma update_network_dij_twice:
  "update_network_dij c (update_network_dij c s) = update_network_dij c s"
  by (simp add: update_network_dij_def Let_def edge_dij_add_edge_dij)

lemma add_user_known: "users s uid = Some n \<Longrightarrow> add_user uid s = (n, s)"
  by (simp add: add_user_def)

lemma add_user_users:
  assumes "add_user uid s = (n, s')"
  shows "users s' uid = Some n" and "users s uid' = Some m \<Longrightarrow> users s' uid' = Some m"
  using assms
  by (auto simp: add_user_def add_vertex_def map_insert_def split: option.splits)

lemma users_update_network_bfs: "users (update_network_bfs c s) = users s"
  by (simp add: update_network_bfs_def Let_def)

lemma users_update_network_dij: "users (update_network_dij c s) = users s"
  by (simp add: update_network_dij_def Let_def)

lemma create_connection_commute: "create_connection a b = create_connection b a"
  by (auto simp: create_connection_def)

lemma build_step_bfs_again:
  assumes "(id1 q, id2 q) = (id1 p, id2 p) \<or> (id1 q, id2 q) = (id2 p, id1 p)"
  shows "build_step_bfs q (build_step_bfs p s) = build_step_bfs p s"
proof -
  obtain n1 s1 where a1: "add_user (id1 p) s = (n1, s1)" by (cases "add_user (id1 p) s")
  obtain n2 s2 where a2: "add_user (id2 p) s1 = (n2, s2)" by (cases "add_user (id2 p) s1")
  define c where "c = create_connection n1 n2"
  define s' where "s' = update_network_bfs c s2"
  have c': "create_connection n2 n1 = c"
    by (simp add: c_def create_connection_commute [of n1 n2])
  have once: "build_step_bfs p s = s'"
    by (simp add: build_step_bfs_def a1 a2 c_def s'_def)
  have u1: "users s' (id1 p) = Some n1"
    using add_user_users(1) [OF a1] add_user_users(2) [OF a2]
    by (simp add: users_update_network_bfs s'_def)
  have u2: "users s' (id2 p) = Some n2"
    using add_user_users(1) [OF a2] by (simp add: users_update_network_bfs s'_def)
  from assms have "build_step_bfs q s' = update_network_bfs c s'"
  proof
    assume "(id1 q, id2 q) = (id1 p, id2 p)"
    then show ?thesis
      by (simp add: build_step_bfs_def add_user_known [OF u1] add_user_known [OF u2] c_def)
  next
    assume "(id1 q, id2 q) = (id2 p, id1 p)"
    then show ?thesis
      by (simp add: build_step_bfs_def add_user_known [OF u1] add_user_known [OF u2] c')
  qed
  with once show ?thesis by (simp add: update_network_bfs_twice s'_def)
qed

lemma build_step_dij_again:
  assumes "(id1 q, id2 q) = (id1 p, id2 p) \<or> (id1 q, id2 q) = (id2 p, id1 p)"
  shows "build_step_dij q (build_step_dij p s) = build_step_dij p s"
proof -
  obtain n1 s1 where a1: "add_user (id1 p) s = (n1, s1)" by (cases "add_user (id1 p) s")
  obtain n2 s2 where a2: "add_user (id2 p) s1 = (n2, s2)" by (cases "add_user (id2 p) s1")
  define c where "c = create_connection n1 n2"
  define s' where "s' = update_network_dij c s2"
  have c': "create_connection n2 n1 = c"
    by (simp add: c_def create_connection_commute [of n1 n2])
  have once: "build_step_dij p s = s'"
    by (simp add: build_step_dij_def a1 a2 c_def s'_def)
  have u1: "users s' (id1 p) = Some n1"
    using add_user_users(1) [OF a1] add_user_users(2) [OF a2]
    by (simp add: users_update_network_dij s'_def)
  have u2: "users s' (id2 p) = Some n2"
    using add_user_users(1) [OF a2] by (simp add: users_update_network_dij s'_def)
  from assms have "build_step_dij q s' = update_network_dij c s'"
  proof
    assume "(id1 q, id2 q) = (id1 p, id2 p)"
    then show ?thesis
      by (simp add: build_step_dij_def add_user_known [OF u1] add_user_known [OF u2] c_def)
  next
    assume "(id1 q, id2 q) = (id2 p, id1 p)"
    then show ?thesis
      by (simp add: build_step_dij_def add_user_known [OF u1] add_user_known [OF u2] c')
  qed
  with once show ?thesis by (simp add: update_network_dij_twice s'_def)
qed

text \<open>
  C8. Edge insertion is idempotent: \<^verbatim>\<open>update_network\<close> applied a second time to the same
  connection leaves the whole state as it is after the first time, and so does a second
  pass of the loop of \<^verbatim>\<open>build_paymo_network\<close> for a payment between the same two users,
  in either order. The state being the same, every edge test, every answer of the
  direct-connection index and every degree is the same; in both variants.
\<close>

theorem update_network_idempotent:
  "update_network_bfs c (update_network_bfs c s) = update_network_bfs c s
   \<and> update_network_dij c (update_network_dij c t) = update_network_dij c t
   \<and> edge_bfs x y (graph (update_network_bfs c (update_network_bfs c s)))
       = edge_bfs x y (graph (update_network_bfs c s))
   \<and> is_connected_bfs (index (update_network_bfs c (update_network_bfs c s))) k
       = is_connected_bfs (index (update_network_bfs c s)) k
   \<and> friendship_degree_bfs k (graph (update_network_bfs c (update_network_bfs c s)))
       = friendship_degree_bfs k (graph (update_network_bfs c s))
   \<and> edge_dij x y (graph (update_network_dij c (update_network_dij c t)))
       = edge_dij x y (graph (update_network_dij c t))
   \<and> is_connected_dij (index (update_network_dij c (update_network_dij c t))) k
       = is_connected_dij (index (update_network_dij c t)) k
   \<and> friendship_degree_dij k (graph (update_network_dij c (update_network_dij c t))) e
       = friendship_degree_dij k (graph (update_network_dij c t)) e
   \<and> ((id1 q, id2 q) = (id1 p, id2 p) \<or> (id1 q, id2 q) = (id2 p, id1 p)
        \<longrightarrow> build_step_bfs q (build_step_bfs p s) = build_step_bfs p s
            \<and> build_step_dij q (build_step_dij p t) = build_step_dij p t)"
  by (simp only: update_network_bfs_twice update_network_dij_twice simp_thms)
     (blast intro: build_step_bfs_again build_step_dij_again)

theorem update_network_idempotent_witness:
  "(id1 (pay 2 1), id2 (pay 2 1)) = (id2 (pay 1 2), id1 (pay 1 2))
   \<and> build_step_bfs (pay 2 1) (build_step_bfs (pay 1 2) empty_bfs)
       = build_step_bfs (pay 1 2) empty_bfs
   \<and> build_step_dij (pay 2 1) (build_step_dij (pay 1 2) empty_dij)
       = build_step_dij (pay 1 2) empty_dij"
proof -
  have h: "(id1 (pay 2 1), id2 (pay 2 1)) = (id2 (pay 1 2), id1 (pay 1 2))"
    by (simp add: pay_def)
  from update_network_idempotent [where s = empty_bfs and t = empty_dij
      and q = "pay 2 1" and p = "pay 1 2"] h
  show ?thesis by blast
qed

section \<open>Parallel edges and self-loops\<close>

definition symmetric_graph :: "Graph_bfs \<Rightarrow> bool" where
  "symmetric_graph g = (\<forall>u v. multiplicity g u v = multiplicity g v u)"

definition no_parallel_edges :: "Graph_bfs \<Rightarrow> bool" where
  \<comment> \<open>at most one edge between two different vertices\<close>
  "no_parallel_edges g = (\<forall>u v. u \<noteq> v \<longrightarrow> multiplicity g u v \<le> 1)"

definition no_self_loops :: "Graph_bfs \<Rightarrow> bool" where
  "no_self_loops g = (\<forall>u. multiplicity g u u = 0)"

lemma multiplicity_zero: "multiplicity g u v = 0 \<longleftrightarrow> \<not> edge_bfs u v g"
  by (simp add: multiplicity_def edge_bfs_def count_list_0_iff)

lemma insert_edge_keeps:
  fixes g :: Graph_bfs and a b :: Vertex
  defines "g' \<equiv> (if \<not> edge_bfs a b g then add_edge_bfs a b g else g)"
  assumes sym: "symmetric_graph g" and par: "no_parallel_edges g"
  shows "symmetric_graph g'" and "no_parallel_edges g'"
    and "a \<noteq> b \<Longrightarrow> no_self_loops g \<Longrightarrow> no_self_loops g'"
    and "edge_bfs a b g'"
proof -
  show "edge_bfs a b g'"
    by (simp add: g'_def edge_bfs_add_edge_bfs)
  have swap: "multiplicity g u v = multiplicity g v u" for u v
    using sym by (simp add: symmetric_graph_def)
  show "symmetric_graph g'"
  proof (cases "edge_bfs a b g")
    case True
    with sym show ?thesis by (simp add: g'_def)
  next
    case False
    then have g': "g' = add_edge_bfs a b g" by (simp add: g'_def)
    show ?thesis
      unfolding symmetric_graph_def
    proof (intro allI)
      fix u v
      have "(if u = a \<and> v = b then 1 else 0) + (if u = b \<and> v = a then 1 else 0)
            = (if v = a \<and> u = b then 1 else 0) + (if v = b \<and> u = a then (1::nat) else 0)"
        by (cases "u = a"; cases "v = b"; cases "u = b"; cases "v = a"; simp)
      then show "multiplicity g' u v = multiplicity g' v u"
        unfolding g' multiplicity_add_edge_bfs swap [of u v] by (simp only: add.assoc)
    qed
  qed
  show "no_parallel_edges g'"
  proof (cases "edge_bfs a b g")
    case True
    with par show ?thesis by (simp add: g'_def)
  next
    case False
    then have ab: "multiplicity g a b = 0" by (simp add: multiplicity_zero)
    with swap [of b a] have ba: "multiplicity g b a = 0" by simp
    from False have g': "g' = add_edge_bfs a b g" by (simp add: g'_def)
    show ?thesis
      unfolding no_parallel_edges_def
    proof (intro allI impI)
      fix u v :: Vertex
      assume uv: "u \<noteq> v"
      with par have le: "multiplicity g u v \<le> 1" by (simp add: no_parallel_edges_def)
      have eq: "multiplicity g' u v
                = multiplicity g u v + (if u = a \<and> v = b then 1 else 0)
                  + (if u = b \<and> v = a then 1 else 0)"
        unfolding g' by (rule multiplicity_add_edge_bfs)
      show "multiplicity g' u v \<le> 1"
      proof (cases "u = a \<and> v = b")
        case True
        with uv ab have "multiplicity g' u v = 1" unfolding eq by simp
        then show ?thesis by simp
      next
        case False
        note nab = this
        show ?thesis
        proof (cases "u = b \<and> v = a")
          case True
          with uv ba nab have "multiplicity g' u v = 1" unfolding eq by simp
          then show ?thesis by simp
        next
          case False
          with nab have "multiplicity g' u v = multiplicity g u v" unfolding eq by simp
          with le show ?thesis by simp
        qed
      qed
    qed
  qed
  show "no_self_loops g'" if "a \<noteq> b" and "no_self_loops g"
  proof (cases "edge_bfs a b g")
    case True
    with that show ?thesis by (simp add: g'_def)
  next
    case False
    then have g': "g' = add_edge_bfs a b g" by (simp add: g'_def)
    show ?thesis
      unfolding no_self_loops_def
    proof
      fix u
      from that(1) have n1: "\<not> (u = a \<and> u = b)" and n2: "\<not> (u = b \<and> u = a)"
        by blast+
      have "multiplicity g' u u = multiplicity g u u"
        unfolding g' multiplicity_add_edge_bfs by (simp only: n1 n2 if_False add_0_right)
      with that(2) show "multiplicity g' u u = 0" by (simp add: no_self_loops_def)
    qed
  qed
qed

lemma graph_update_network_bfs:
  "graph (update_network_bfs c s)
   = (if \<not> edge_bfs (fst c) (snd c) (graph s) then add_edge_bfs (fst c) (snd c) (graph s)
      else graph s)"
  by (simp add: update_network_bfs_def Let_def)

lemma graph_update_network_dij:
  "targets (graph (update_network_dij c t))
   = (if \<not> edge_bfs (fst c) (snd c) (targets (graph t))
      then add_edge_bfs (fst c) (snd c) (targets (graph t))
      else targets (graph t))"
  by (simp add: update_network_dij_def Let_def edge_dij_targets targets_add_edge_dij)

text \<open>
  \<^verbatim>\<open>update_network\<close> tests \<^verbatim>\<open>edge(v0, v1, g)\<close> before \<^verbatim>\<open>add_edge\<close>, so it never creates a
  parallel edge: on a graph that stores every edge at both ends and has at most one edge
  between two different nodes, the graph after \<^verbatim>\<open>update_network\<close> is again such a graph, for
  every pair. For a pair of two different nodes it creates no self-loop either. The same holds
  in both variants.
\<close>

lemma update_network_no_parallel_edge:
  assumes "symmetric_graph (graph s)" and "no_parallel_edges (graph s)"
    and "symmetric_graph (targets (graph t))" and "no_parallel_edges (targets (graph t))"
  shows "symmetric_graph (graph (update_network_bfs c s))
       \<and> no_parallel_edges (graph (update_network_bfs c s))
       \<and> (fst c \<noteq> snd c \<and> no_self_loops (graph s)
            \<longrightarrow> no_self_loops (graph (update_network_bfs c s)))
       \<and> symmetric_graph (targets (graph (update_network_dij c t)))
       \<and> no_parallel_edges (targets (graph (update_network_dij c t)))
       \<and> (fst c \<noteq> snd c \<and> no_self_loops (targets (graph t))
            \<longrightarrow> no_self_loops (targets (graph (update_network_dij c t))))"
proof -
  note bfs = insert_edge_keeps [OF assms(1, 2), of "fst c" "snd c",
      folded graph_update_network_bfs]
  note dij = insert_edge_keeps [OF assms(3, 4), of "fst c" "snd c",
      folded graph_update_network_dij]
  from bfs(1, 2, 3) dij(1, 2, 3) show ?thesis by blast
qed

lemma multiplicity_two_isolated: "multiplicity [[], []] u v = 0"
  by (cases u rule: nat.exhaust; simp add: multiplicity_def out_edges_def nth_Cons')

lemma update_network_no_parallel_edge_example:
  "symmetric_graph (graph (empty_bfs\<lparr>graph := [[], []]\<rparr>))
   \<and> no_parallel_edges (graph (empty_bfs\<lparr>graph := [[], []]\<rparr>))
   \<and> symmetric_graph (targets (graph (empty_dij\<lparr>graph := [[], []]\<rparr>)))
   \<and> no_parallel_edges (targets (graph (empty_dij\<lparr>graph := [[], []]\<rparr>)))
   \<and> no_self_loops (graph (empty_bfs\<lparr>graph := [[], []]\<rparr>))
   \<and> no_self_loops (targets (graph (empty_dij\<lparr>graph := [[], []]\<rparr>)))
   \<and> symmetric_graph (graph (update_network_bfs (0, 1) (empty_bfs\<lparr>graph := [[], []]\<rparr>)))
   \<and> no_parallel_edges (graph (update_network_bfs (0, 1) (empty_bfs\<lparr>graph := [[], []]\<rparr>)))
   \<and> no_self_loops (graph (update_network_bfs (0, 1) (empty_bfs\<lparr>graph := [[], []]\<rparr>)))
   \<and> no_self_loops (targets (graph (update_network_dij (0, 1) (empty_dij\<lparr>graph := [[], []]\<rparr>))))"
proof -
  let ?s = "empty_bfs\<lparr>graph := [[], []]\<rparr>"
  let ?t = "empty_dij\<lparr>graph := [[], []]\<rparr>"
  have h1: "symmetric_graph (graph ?s)" and h2: "no_parallel_edges (graph ?s)"
    and h5: "no_self_loops (graph ?s)"
    by (simp_all add: symmetric_graph_def no_parallel_edges_def no_self_loops_def
          multiplicity_two_isolated)
  have h3: "symmetric_graph (targets (graph ?t))" and h4: "no_parallel_edges (targets (graph ?t))"
    and h6: "no_self_loops (targets (graph ?t))"
    by (simp_all add: symmetric_graph_def no_parallel_edges_def no_self_loops_def
          multiplicity_two_isolated targets_def)
  from update_network_no_parallel_edge [OF h1 h2 h3 h4, of "(0, 1)"] h1 h2 h3 h4 h5 h6
  show ?thesis by simp
qed

text \<open>
  C3. The claim: \<^verbatim>\<open>update_network\<close> never inserts a self-loop; a pair with both nodes the
  same is rejected or ignored, in bulk-load mode and in live mode. The code does not meet it.
  Its comments state the convention that the first node of a pair is always smaller than the
  second (at \<^verbatim>\<open>create_connection\<close> and at the test in \<^verbatim>\<open>update_network\<close>), but nothing
  enforces it: for a payment of a user to itself \<^verbatim>\<open>add_user\<close> returns the same node twice,
  \<^verbatim>\<open>create_connection\<close> returns the pair of that node with itself, \<^verbatim>\<open>edge\<close> finds no such
  edge, and \<^verbatim>\<open>add_edge\<close> stores the loop. On the one payment record of user 7 to user 7,
  starting from the empty graph, node 0 has an edge to itself afterwards: after
  \<^verbatim>\<open>build_paymo_network\<close> and after the main loop, in both variants.
\<close>

theorem self_payment_inserts_self_loop:
  "edge_bfs 0 0 (graph (build_paymo_network_bfs [pay 7 7] empty_bfs))
   \<and> edge_dij 0 0 (graph (build_paymo_network_dij [pay 7 7] empty_dij))
   \<and> edge_bfs 0 0 (graph (snd (main_loop_bfs [pay 7 7] empty_bfs)))
   \<and> map_option (\<lambda>r. edge_dij 0 0 (graph (snd r))) (main_loop_dij [pay 7 7] empty_dij) = Some True"
  by code_simp

section \<open>The key function is collision-free\<close>

text \<open>
  On 32 bit arguments no conversion in \<^verbatim>\<open>perfect_hash\<close> wraps around: the two arguments are
  mapped to the naturals \<open>A\<close> and \<open>B\<close> (even for a non-negative argument, odd for a negative
  one), paired by the function of Szudzik, and the pair number is halved.
\<close>

definition int_range :: "int \<Rightarrow> bool" where
  \<comment> \<open>the values of a 32 bit \<^verbatim>\<open>int\<close>\<close>
  "int_range a = (- (2 ^ 31) \<le> a \<and> a < 2 ^ 31)"

definition zigzag :: "int \<Rightarrow> int" where
  "zigzag a = (if a \<ge> 0 then 2 * a else - 2 * a - 1)"

definition szudzik :: "int \<Rightarrow> int \<Rightarrow> int" where
  "szudzik A B = (if A \<ge> B then A * A + A + B else A + B * B)"

lemma to_long_id: "- (2 ^ 63) \<le> x \<Longrightarrow> x < 2 ^ 63 \<Longrightarrow> to_long x = x"
  by (simp add: to_long_def)

lemma to_ulong_id: "0 \<le> x \<Longrightarrow> x < 2 ^ 64 \<Longrightarrow> to_ulong x = x"
  by (simp add: to_ulong_def)

lemma zigzag_range: "int_range a \<Longrightarrow> 0 \<le> zigzag a \<and> zigzag a \<le> 2 ^ 32 - 1"
  by (auto simp: int_range_def zigzag_def)

lemma szudzik_range:
  assumes "0 \<le> A" "A \<le> 2 ^ 32 - 1" "0 \<le> B" "B \<le> 2 ^ 32 - 1"
  shows "0 \<le> szudzik A B" and "szudzik A B < 2 ^ 64"
proof -
  from assms mult_mono [of A 4294967295 A 4294967295] mult_mono [of B 4294967295 B 4294967295]
  have "A * A \<le> 18446744065119617025" "B * B \<le> 18446744065119617025"
    by simp_all
  with assms show "szudzik A B < 2 ^ 64" by (auto simp: szudzik_def)
  from assms show "0 \<le> szudzik A B" by (auto simp: szudzik_def)
qed

lemma perfect_hash_unwrapped:
  assumes "int_range a" and "int_range b"
  shows "perfect_hash a b =
           (if (a < 0 \<and> b < 0) \<or> (a \<ge> 0 \<and> b \<ge> 0)
            then szudzik (zigzag a) (zigzag b) div 2
            else - (szudzik (zigzag a) (zigzag b) div 2) - 1)"
proof -
  let ?A = "zigzag a" and ?B = "zigzag b"
  from assms(1) have A: "to_ulong (if a \<ge> 0 then to_long (2 * a) else to_long (- 2 * a - 1)) = ?A"
    by (auto simp: int_range_def zigzag_def to_long_id to_ulong_id)
  from assms(2) have B: "to_ulong (if b \<ge> 0 then to_long (2 * b) else to_long (- 2 * b - 1)) = ?B"
    by (auto simp: int_range_def zigzag_def to_long_id to_ulong_id)
  note rA = zigzag_range [OF assms(1)] and rB = zigzag_range [OF assms(2)]
  from rA rB have S: "0 \<le> szudzik ?A ?B" "szudzik ?A ?B < 2 ^ 64"
    by (blast intro: szudzik_range)+
  then have S': "(if ?A \<ge> ?B then to_ulong (?A * ?A + ?A + ?B) else to_ulong (?A + ?B * ?B))
                 = szudzik ?A ?B"
    by (auto simp: szudzik_def to_ulong_id)
  from S have C: "0 \<le> szudzik ?A ?B div 2" "szudzik ?A ?B div 2 < 2 ^ 63" by auto
  then have "to_long (szudzik ?A ?B div 2) = szudzik ?A ?B div 2"
    and "to_long (- (szudzik ?A ?B div 2) - 1) = - (szudzik ?A ?B div 2) - 1"
    by (auto simp: to_long_id)
  then show ?thesis
    unfolding perfect_hash_def A B S' Let_def by simp
qed

lemma square_gap:
  fixes M N r t k :: int
  assumes "0 \<le> M" "0 \<le> N" "0 \<le> r" "r \<le> 2 * M" "0 \<le> t" "t \<le> 2 * N"
    and eq: "N * N + t = M * M + r + k" and k: "k = 0 \<or> k = 1"
  shows "N = M \<or> (N = M + 1 \<and> k = 1 \<and> r = 2 * M \<and> t = 0)"
proof -
  have low: "\<not> N < M"
  proof
    assume "N < M"
    with assms(2) have "(N + 1) * (N + 1) \<le> M * M" by (intro mult_mono) auto
    then have "N * N + 2 * N + 1 \<le> M * M" by (simp add: algebra_simps)
    with assms eq show False by auto
  qed
  have high: "\<not> M + 1 < N"
  proof
    assume "M + 1 < N"
    with assms(1) have "(M + 2) * (M + 2) \<le> N * N" by (intro mult_mono) auto
    then have "M * M + 4 * M + 4 \<le> N * N" by (simp add: algebra_simps)
    with assms eq k show False by auto
  qed
  from low high have "N = M \<or> N = M + 1" by auto
  then show ?thesis
  proof
    assume "N = M"
    then show ?thesis by simp
  next
    assume N: "N = M + 1"
    then have "N * N = M * M + 2 * M + 1" by (simp add: algebra_simps)
    with eq assms(3-6) k N show ?thesis by auto
  qed
qed

lemma szudzik_no_neighbour:
  fixes A B A' B' k :: int
  assumes nn: "0 \<le> A" "0 \<le> B" "0 \<le> A'" "0 \<le> B'"
    and eq: "szudzik A' B' = szudzik A B + k"
    and k: "k = 0 \<or> (k = 1 \<and> even (szudzik A B))"
    and par: "even (A + B) = even (A' + B')"
  shows "A' = A \<and> B' = B"
proof -
  from k have k01: "k = 0 \<or> k = 1" by auto
  have ev: "even (x * x + x)" for x :: int by simp
  consider (gg) "B \<le> A" "B' \<le> A'" | (gl) "B \<le> A" "A' < B'"
    | (lg) "A < B" "B' \<le> A'" | (ll) "A < B" "A' < B'"
    by linarith
  then show ?thesis
  proof cases
    case gg
    with eq have e: "A' * A' + (A' + B') = A * A + (A + B) + k"
      by (simp add: szudzik_def)
    from square_gap [OF nn(1) nn(3) _ _ _ _ e k01] nn gg
    have "A' = A \<or> (A' = A + 1 \<and> k = 1 \<and> A + B = 2 * A \<and> A' + B' = 0)" by auto
    with nn have A: "A' = A" by auto
    with e have "B' = B + k" by simp
    with A par k01 show ?thesis by auto
  next
    case gl
    with eq have e: "B' * B' + A' = A * A + (A + B) + k"
      by (simp add: szudzik_def)
    from square_gap [OF nn(1) nn(4) _ _ _ _ e k01] nn gl
    have "B' = A \<or> (B' = A + 1 \<and> k = 1 \<and> A + B = 2 * A \<and> A' = 0)" by auto
    then show ?thesis
    proof
      assume "B' = A"
      with e have "A' = A + B + k" by simp
      with \<open>B' = A\<close> gl nn k01 show ?thesis by auto
    next
      assume h: "B' = A + 1 \<and> k = 1 \<and> A + B = 2 * A \<and> A' = 0"
      then have "B = A" by simp
      with h k gl have "even (A * A + A + A)" by (simp add: szudzik_def)
      then have "even A" by simp
      with h \<open>B = A\<close> par show ?thesis by simp
    qed
  next
    case lg
    with eq have e: "A' * A' + (A' + B') = B * B + A + k"
      by (simp add: szudzik_def)
    from square_gap [OF nn(2) nn(3) _ _ _ _ e k01] nn lg
    have "A' = B \<or> (A' = B + 1 \<and> k = 1 \<and> A = 2 * B \<and> A' + B' = 0)" by auto
    with nn lg have A': "A' = B" by auto
    with e have "B + B' = A + k" by simp
    with lg nn k01 have h: "B' = 0" "k = 1" "A = B - 1" by auto
    from k h(2) lg have "even (A + B * B)" by (simp add: szudzik_def)
    moreover from h(3) have "A + B * B = (B * B + B) - 1" by simp
    ultimately have "even ((B * B + B) - 1)" by (simp only:)
    with ev [of B] show ?thesis by (simp only: even_diff) simp
  next
    case ll
    with eq have e: "B' * B' + A' = B * B + A + k"
      by (simp add: szudzik_def)
    from square_gap [OF nn(2) nn(4) _ _ _ _ e k01] nn ll
    have "B' = B \<or> (B' = B + 1 \<and> k = 1 \<and> A = 2 * B \<and> A' = 0)" by auto
    with nn ll have B': "B' = B" by auto
    with e have "A' = A + k" by simp
    with B' par k01 show ?thesis by auto
  qed
qed

lemma zigzag_inj: "zigzag a = zigzag b \<Longrightarrow> a = b"
  by (auto simp: zigzag_def split: if_splits) presburger+

lemma even_zigzag: "even (zigzag a) \<longleftrightarrow> a \<ge> 0"
  by (simp add: zigzag_def)

lemma signed_half_eq:
  fixes c c' :: int
  assumes "0 \<le> c" "0 \<le> c'" and "(if p then c else - c - 1) = (if p' then c' else - c' - 1)"
  shows "p = p' \<and> c = c'"
  using assms by (cases p; cases p'; simp)

lemma perfect_hash_inj:
  assumes r: "int_range a" "int_range b" "int_range a'" "int_range b'"
    and eq: "perfect_hash a b = perfect_hash a' b'"
  shows "a = a' \<and> b = b'"
proof -
  let ?S = "szudzik (zigzag a) (zigzag b)" and ?S' = "szudzik (zigzag a') (zigzag b')"
  let ?same = "(a < 0 \<and> b < 0) \<or> (a \<ge> 0 \<and> b \<ge> 0)"
  let ?same' = "(a' < 0 \<and> b' < 0) \<or> (a' \<ge> 0 \<and> b' \<ge> 0)"
  note z = zigzag_range [OF r(1)] zigzag_range [OF r(2)] zigzag_range [OF r(3)]
    zigzag_range [OF r(4)]
  from z have nn: "0 \<le> zigzag a" "0 \<le> zigzag b" "0 \<le> zigzag a'" "0 \<le> zigzag b'"
    by simp_all
  from z have S: "0 \<le> ?S" "0 \<le> ?S'" by (blast intro: szudzik_range)+
  from eq have h: "(if ?same then ?S div 2 else - (?S div 2) - 1)
                   = (if ?same' then ?S' div 2 else - (?S' div 2) - 1)"
    by (simp only: perfect_hash_unwrapped [OF r(1, 2)] perfect_hash_unwrapped [OF r(3, 4)])
  from S have "0 \<le> ?S div 2" "0 \<le> ?S' div 2" by simp_all
  from signed_half_eq [OF this h] have same: "?same = ?same'" and half: "?S div 2 = ?S' div 2"
    by blast+
  have par: "even (zigzag a + zigzag b) = even (zigzag a' + zigzag b')"
    using same by (simp add: even_zigzag) linarith
  from half have "?S' = ?S \<or> (?S' = ?S + 1 \<and> even ?S) \<or> (?S = ?S' + 1 \<and> even ?S')"
    by presburger
  then have "zigzag a' = zigzag a \<and> zigzag b' = zigzag b"
  proof (elim disjE)
    assume "?S' = ?S"
    then show ?thesis
      using szudzik_no_neighbour [OF nn(1, 2, 3, 4), of 0] par by simp
  next
    assume "?S' = ?S + 1 \<and> even ?S"
    then show ?thesis
      using szudzik_no_neighbour [OF nn(1, 2, 3, 4), of 1] par by simp
  next
    assume "?S = ?S' + 1 \<and> even ?S'"
    then show ?thesis
      using szudzik_no_neighbour [OF nn(3, 4, 1, 2), of 1] par by simp
  qed
  then show ?thesis by (simp add: zigzag_inj)
qed

lemma int_range_to_int: "int_range (to_int x)"
proof -
  have "0 \<le> (x + 2 ^ 31) mod 2 ^ 32" "(x + 2 ^ 31) mod 2 ^ 32 < 2 ^ 32"
    by simp_all
  then show ?thesis by (simp add: int_range_def to_int_def)
qed

lemma to_int_small: "0 \<le> x \<Longrightarrow> x < 2 ^ 31 \<Longrightarrow> to_int x = x"
  by (simp add: to_int_def)

lemma to_int_large:
  assumes "2 ^ 31 \<le> x" and "x < 2 ^ 32"
  shows "to_int x = x - 2 ^ 32"
proof -
  have "(x + 2 ^ 31) mod 2 ^ 32 = (x + 2 ^ 31 - 2 ^ 32) mod 2 ^ 32"
    by (metis minus_mod_self2)
  also from assms have "\<dots> = x + 2 ^ 31 - 2 ^ 32" by simp
  finally show ?thesis by (simp add: to_int_def)
qed

lemma to_int_inj:
  assumes "0 \<le> x" "x < 2 ^ 32" "0 \<le> y" "y < 2 ^ 32" and "to_int x = to_int y"
  shows "x = y"
proof -
  have c: "to_int z = (if z < 2 ^ 31 then z else z - 2 ^ 32)" if "0 \<le> z" "z < 2 ^ 32" for z
    using that by (simp add: to_int_small to_int_large)
  from assms show ?thesis by (simp add: c split: if_splits)
qed

lemma to_int_nat_inj:
  fixes x y :: nat
  assumes "x < 2 ^ 32" "y < 2 ^ 32" and "to_int (int x) = to_int (int y)"
  shows "x = y"
  using to_int_inj [of "int x" "int y"] assms by simp

definition connection_key :: "Connection \<Rightarrow> int" where
  \<comment> \<open>the key \<^verbatim>\<open>perfect_hash(connection.first, connection.second)\<close>, with the conversion of
      the two vertex descriptors to the \<^verbatim>\<open>int\<close> parameters\<close>
  "connection_key c = perfect_hash (to_int (int (fst c))) (to_int (int (snd c)))"

lemma connection_key_inj:
  assumes "fst c < 2 ^ 32" "snd c < 2 ^ 32" "fst c' < 2 ^ 32" "snd c' < 2 ^ 32"
    and "connection_key c = connection_key c'"
  shows "c = c'"
proof -
  from assms(5) perfect_hash_inj [OF int_range_to_int int_range_to_int int_range_to_int
      int_range_to_int]
  have "to_int (int (fst c)) = to_int (int (fst c'))" "to_int (int (snd c)) = to_int (int (snd c'))"
    unfolding connection_key_def by blast+
  with assms(1-4) have "fst c = fst c'" "snd c = snd c'"
    by (blast intro: to_int_nat_inj)+
  then show ?thesis by (simp add: prod_eq_iff)
qed

section \<open>Invariants of the state\<close>

definition registry_ok :: "('e, 'i) paymo \<Rightarrow> bool" where
  \<comment> \<open>the registered nodes are exactly the vertices of the graph\<close>
  "registry_ok s =
     ((\<forall>uid n. users s uid = Some n \<longrightarrow> n < length (graph s))
      \<and> (\<forall>n < length (graph s). \<exists>uid. users s uid = Some n))"

lemma registry_bound:
  assumes "registry_ok s"
  shows "length (graph s) \<le> 2 ^ 32"
proof -
  define f where "f n = (SOME uid. users s uid = Some n)" for n
  have f: "users s (f n) = Some n" if "n < length (graph s)" for n
    unfolding f_def using assms that by (auto simp: registry_ok_def intro: someI_ex)
  have "inj_on f {..<length (graph s)}"
  proof (rule inj_onI)
    fix n m
    assume n: "n \<in> {..<length (graph s)}" and m: "m \<in> {..<length (graph s)}"
      and eq: "f n = f m"
    from n have "Some n = users s (f n)" by (simp add: f)
    also have "\<dots> = users s (f m)" by (simp only: eq)
    also from m have "\<dots> = Some m" by (simp add: f)
    finally show "n = m" by simp
  qed
  then have "card {..<length (graph s)} \<le> card (UNIV :: UID set)"
    by (rule card_inj_on_le) simp_all
  then show ?thesis by (simp add: card_word)
qed

lemma closed_graph_iff: "closed_graph g \<longleftrightarrow> (\<forall>x. \<forall>y \<in> set (out_edges g x). y < length g)"
proof
  assume "closed_graph g"
  then show "\<forall>x. \<forall>y \<in> set (out_edges g x). y < length g"
    by (auto simp: closed_graph_at)
next
  assume r: "\<forall>x. \<forall>y \<in> set (out_edges g x). y < length g"
  show "closed_graph g"
    unfolding closed_graph_def list_all_iff
  proof (intro ballI)
    fix es y
    assume "es \<in> set g" "y \<in> set es"
    then obtain x where "x < length g" "g ! x = es" by (auto simp: in_set_conv_nth)
    with r \<open>y \<in> set es\<close> show "y < length g" by (auto simp: out_edges_def)
  qed
qed

lemma unit_weights_iff: "unit_weights g \<longleftrightarrow> (\<forall>x. \<forall>e \<in> set (out_edges g x). snd e = 1)"
proof
  assume "unit_weights g"
  then show "\<forall>x. \<forall>e \<in> set (out_edges g x). snd e = 1"
    by (auto simp: unit_weights_at)
next
  assume r: "\<forall>x. \<forall>e \<in> set (out_edges g x). snd e = 1"
  show "unit_weights g"
    unfolding unit_weights_def list_all_iff
  proof (intro ballI)
    fix es e
    assume "es \<in> set g" "e \<in> set es"
    then obtain x where x: "x < length g" "g ! x = es" by (auto simp: in_set_conv_nth)
    from r have "\<forall>e \<in> set (out_edges g x). snd e = 1" by blast
    with x \<open>e \<in> set es\<close> show "snd e = 1" by (simp add: out_edges_def)
  qed
qed

lemma out_edges_add_vertex: "out_edges (g @ [[]]) x = out_edges g x"
  by (auto simp: out_edges_def nth_append)

lemma add_user_cases:
  assumes "add_user uid s = (n, s')"
  obtains (known) "users s uid = Some n" "s' = s"
  | (new) "users s uid = None" "n = length (graph s)"
      "s' = s\<lparr>graph := graph s @ [[]], users := (users s)(uid \<mapsto> n),
              nodes := map_insert (nodes s) n uid\<rparr>"
  using assms
  by (auto simp: add_user_def add_vertex_def map_insert_def split: option.splits)

lemma add_user_registry:
  assumes "registry_ok s" and "add_user uid s = (n, s')"
  shows "registry_ok s'" and "n < length (graph s')"
    and "out_edges (graph s') x = out_edges (graph s) x" and "index s' = index s"
    and "length (graph s) \<le> length (graph s')"
proof -
  from assms(2) have "registry_ok s' \<and> n < length (graph s')
      \<and> out_edges (graph s') x = out_edges (graph s) x \<and> index s' = index s
      \<and> length (graph s) \<le> length (graph s')"
  proof (cases rule: add_user_cases)
    case known
    with assms(1) show ?thesis by (auto simp: registry_ok_def)
  next
    case new
    have "registry_ok s'"
      unfolding registry_ok_def
    proof (intro conjI allI impI)
      fix uid' m
      assume "users s' uid' = Some m"
      with new assms(1) show "m < length (graph s')"
        by (auto simp: registry_ok_def less_Suc_eq split: if_splits)
    next
      fix m
      assume "m < length (graph s')"
      with new have "m < length (graph s) \<or> m = n" by auto
      then show "\<exists>uid'. users s' uid' = Some m"
      proof
        assume "m < length (graph s)"
        with assms(1) obtain uid' where u: "users s uid' = Some m"
          by (auto simp: registry_ok_def)
        with new have "uid' \<noteq> uid" by auto
        with u new show ?thesis by auto
      next
        assume "m = n"
        with new show ?thesis by auto
      qed
    qed
    with new show ?thesis by (simp add: out_edges_add_vertex)
  qed
  then show "registry_ok s'" and "n < length (graph s')"
    and "out_edges (graph s') x = out_edges (graph s) x" and "index s' = index s"
    and "length (graph s) \<le> length (graph s')"
    by simp_all
qed

lemma is_connected_bfs_key: "is_connected_bfs m c = (m (connection_key c) = Some True)"
  by (auto simp: is_connected_bfs_def connection_key_def friends_lookup_def split: option.splits)

lemma is_connected_bfs_lookup:
  "is_connected_bfs (snd (friends_lookup m k)) c = is_connected_bfs m c"
  by (auto simp: is_connected_bfs_key friends_lookup_def split: option.splits)

lemma update_network_bfs_alt:
  "update_network_bfs c s =
     (if \<not> edge_bfs (fst c) (snd c) (graph s)
      then s\<lparr>graph := add_edge_bfs (fst c) (snd c) (graph s),
             index := (index s)(connection_key c \<mapsto> True)\<rparr>
      else s)"
  by (simp add: update_network_bfs_def Let_def connection_key_def)

definition index_ok_bfs :: "paymo_bfs \<Rightarrow> bool" where
  \<comment> \<open>the index answers true exactly for the canonical pairs that are edges of the graph\<close>
  "index_ok_bfs s =
     (\<forall>a b. a < 2 ^ 32 \<and> b < 2 ^ 32 \<longrightarrow>
        is_connected_bfs (index s) (a, b) = (a \<le> b \<and> edge_bfs a b (graph s)))"

definition inv_bfs :: "paymo_bfs \<Rightarrow> bool" where
  "inv_bfs s = (registry_ok s \<and> closed_graph (graph s) \<and> index_ok_bfs s)"

lemma inv_bfs_empty: "inv_bfs empty_bfs"
  by (simp add: inv_bfs_def registry_ok_def closed_graph_def index_ok_bfs_def empty_bfs_def
        is_connected_bfs_key edge_bfs_def out_edges_def)

lemma add_user_inv_bfs:
  assumes "inv_bfs s" and "add_user uid s = (n, s')"
  shows "inv_bfs s'"
proof -
  from assms(1) have reg: "registry_ok s" and cl: "closed_graph (graph s)"
    and ix: "index_ok_bfs s"
    by (simp_all add: inv_bfs_def)
  note au = add_user_registry [OF reg assms(2)]
  have "closed_graph (graph s')"
    unfolding closed_graph_iff
  proof (intro allI ballI)
    fix x y
    assume "y \<in> set (out_edges (graph s') x)"
    with au(3) [of x] cl have "y < length (graph s)" by (simp add: closed_graph_iff)
    with au(5) show "y < length (graph s')" by simp
  qed
  moreover from ix have "index_ok_bfs s'"
    by (simp add: index_ok_bfs_def au(4) edge_bfs_def au(3))
  ultimately show ?thesis using au(1) by (simp add: inv_bfs_def)
qed

lemma closed_graph_add_edge_bfs:
  assumes "closed_graph g" and "u < length g" and "v < length g"
  shows "closed_graph (add_edge_bfs u v g)"
  using assms
  by (auto simp: closed_graph_iff out_edges_add_edge_bfs length_add_edge_bfs split: if_splits)

lemma update_network_bfs_inv:
  assumes "inv_bfs s" and c: "fst c \<le> snd c" "snd c < length (graph s)"
  shows "inv_bfs (update_network_bfs c s)"
proof (cases "edge_bfs (fst c) (snd c) (graph s)")
  case True
  with assms(1) show ?thesis by (simp add: update_network_bfs_alt)
next
  case False
  let ?s = "update_network_bfs c s"
  from assms(1) have reg: "registry_ok s" and cl: "closed_graph (graph s)"
    and ix: "index_ok_bfs s"
    by (simp_all add: inv_bfs_def)
  from False have g: "graph ?s = add_edge_bfs (fst c) (snd c) (graph s)"
    and i: "index ?s = (index s)(connection_key c \<mapsto> True)" and u: "users ?s = users s"
    by (simp_all add: update_network_bfs_alt)
  from c have len: "length (graph ?s) = length (graph s)"
    by (simp add: g length_add_edge_bfs)
  from reg have "registry_ok ?s" by (simp add: registry_ok_def len u)
  moreover from cl c have "closed_graph (graph ?s)"
    by (simp add: g closed_graph_add_edge_bfs)
  moreover have "index_ok_bfs ?s"
    unfolding index_ok_bfs_def
  proof (intro allI impI)
    fix a b :: Vertex
    assume r: "a < 2 ^ 32 \<and> b < 2 ^ 32"
    from registry_bound [OF reg] c have rc: "fst c < 2 ^ 32" "snd c < 2 ^ 32" by simp_all
    from r rc connection_key_inj [of "(a, b)" c]
    have key: "connection_key (a, b) = connection_key c \<longleftrightarrow> (a, b) = c"
      by auto
    from ix r have old: "is_connected_bfs (index s) (a, b) = (a \<le> b \<and> edge_bfs a b (graph s))"
      by (simp add: index_ok_bfs_def)
    show "is_connected_bfs (index ?s) (a, b) = (a \<le> b \<and> edge_bfs a b (graph ?s))"
    proof (cases "(a, b) = c")
      case True
      with c show ?thesis by (auto simp: is_connected_bfs_key i g edge_bfs_add_edge_bfs)
    next
      case False
      with key have "is_connected_bfs (index ?s) (a, b) = is_connected_bfs (index s) (a, b)"
        by (simp add: is_connected_bfs_key i)
      moreover
      have e: "edge_bfs a b (graph ?s)
               = (edge_bfs a b (graph s) \<or> (a = fst c \<and> b = snd c) \<or> (a = snd c \<and> b = fst c))"
        by (simp add: g edge_bfs_add_edge_bfs)
      from False have "\<not> (a = fst c \<and> b = snd c)" by (auto simp: prod_eq_iff)
      with c(1) have "(a \<le> b \<and> edge_bfs a b (graph ?s)) = (a \<le> b \<and> edge_bfs a b (graph s))"
        unfolding e by auto
      ultimately show ?thesis using old by simp
    qed
  qed
  ultimately show ?thesis by (simp add: inv_bfs_def)
qed

lemma lookup_inv_bfs:
  "inv_bfs s \<Longrightarrow> inv_bfs (s\<lparr>index := snd (friends_lookup (index s) k)\<rparr>)"
  by (simp add: inv_bfs_def registry_ok_def index_ok_bfs_def is_connected_bfs_lookup)

lemma create_connection_ordered:
  "fst (create_connection a b) \<le> snd (create_connection a b)"
  "a < n \<Longrightarrow> b < n \<Longrightarrow> snd (create_connection a b) < n"
  by (auto simp: create_connection_def)

text \<open>The first three lines of the body of both loops: the two nodes and their connection.\<close>

definition resolve :: "payment_t \<Rightarrow> ('e, 'i) paymo \<Rightarrow> Connection \<times> ('e, 'i) paymo" where
  "resolve payment s =
     (let (node1, s1) = add_user (id1 payment) s;
          (node2, s2) = add_user (id2 payment) s1
      in (create_connection node1 node2, s2))"

lemma resolve_inv_bfs:
  assumes "inv_bfs s" and "resolve p s = (c, s2)"
  shows "inv_bfs s2" and "fst c \<le> snd c" and "snd c < length (graph s2)"
proof -
  obtain n1 s1 where a1: "add_user (id1 p) s = (n1, s1)" by (cases "add_user (id1 p) s")
  obtain n2 s2' where a2: "add_user (id2 p) s1 = (n2, s2')" by (cases "add_user (id2 p) s1")
  from assms(2) a1 a2 have c: "c = create_connection n1 n2" and s2: "s2 = s2'"
    by (simp_all add: resolve_def)
  note i1 = add_user_inv_bfs [OF assms(1) a1]
  note i2 = add_user_inv_bfs [OF i1 a2]
  from i2 s2 show "inv_bfs s2" by simp
  from assms(1) have "registry_ok s" by (simp add: inv_bfs_def)
  note r1 = add_user_registry [OF this a1]
  note r2 = add_user_registry [OF r1(1) a2]
  from r1(2) r2(2, 5) have "n1 < length (graph s2)" "n2 < length (graph s2)"
    by (simp_all add: s2)
  then show "snd c < length (graph s2)" by (simp add: c create_connection_ordered)
  show "fst c \<le> snd c" by (simp add: c create_connection_ordered)
qed

lemma build_step_bfs_resolve:
  "build_step_bfs p s = (let (c, s2) = resolve p s in update_network_bfs c s2)"
  by (simp add: build_step_bfs_def resolve_def Let_def split_beta)

lemma stream_step_bfs_resolve:
  "stream_step_bfs p s =
     (let (c, s2) = resolve p s;
          s3 = s2\<lparr>index := snd (friends_lookup (index s2) (connection_key c))\<rparr>
      in if is_connected_bfs (index s2) c then (1, s3)
         else (friendship_degree_bfs c (graph s2), update_network_bfs c s3))"
  by (simp add: stream_step_bfs_def resolve_def is_connected_bfs_def connection_key_def
        Let_def split_beta)

lemma build_step_bfs_inv: "inv_bfs s \<Longrightarrow> inv_bfs (build_step_bfs p s)"
proof -
  assume i: "inv_bfs s"
  obtain c s2 where r: "resolve p s = (c, s2)" by (cases "resolve p s")
  from resolve_inv_bfs [OF i r] show ?thesis
    by (simp add: build_step_bfs_resolve r update_network_bfs_inv)
qed

lemma stream_step_bfs_inv: "inv_bfs s \<Longrightarrow> inv_bfs (snd (stream_step_bfs p s))"
proof -
  assume i: "inv_bfs s"
  obtain c s2 where r: "resolve p s = (c, s2)" by (cases "resolve p s")
  note rs = resolve_inv_bfs [OF i r]
  let ?s3 = "s2\<lparr>index := snd (friends_lookup (index s2) (connection_key c))\<rparr>"
  from rs(1) have i3: "inv_bfs ?s3" by (rule lookup_inv_bfs)
  from rs(3) have "snd c < length (graph ?s3)" by simp
  from update_network_bfs_inv [OF i3 rs(2) this] i3 show ?thesis
    by (simp add: stream_step_bfs_resolve r Let_def)
qed

lemma build_paymo_network_bfs_inv: "inv_bfs s \<Longrightarrow> inv_bfs (build_paymo_network_bfs hs s)"
  by (induction hs arbitrary: s) (simp_all add: build_step_bfs_inv)

lemma main_loop_bfs_inv: "inv_bfs s \<Longrightarrow> inv_bfs (snd (main_loop_bfs ps s))"
proof (induction ps arbitrary: s)
  case Nil
  then show ?case by simp
next
  case (Cons p ps)
  from Cons.IH [OF stream_step_bfs_inv [OF Cons.prems, of p]] show ?case
    by (simp add: split_beta)
qed

lemma dij_out_edges_unit:
  "\<forall>e \<in> set es. snd e = 1 \<Longrightarrow> \<exists>r. dij_out_edges u es st = Inr r"
proof (induction es arbitrary: st)
  case Nil
  then show ?case by (cases st) simp
next
  case (Cons e es)
  obtain d color Q where st: "st = (d, color, Q)" by (cases st)
  obtain v where e: "e = (v, 1)" using Cons.prems by (cases e) auto
  from Cons.prems have rest: "\<forall>e \<in> set es. snd e = 1" by simp
  show ?case
    unfolding st e using Cons.IH [OF rest]
    by (cases "get_color color v") simp_all
qed

lemma dij_visit_loop_unfold:
  assumes "Q \<noteq> []"
    and "dij_out_edges (arg_min_list (\<lambda>v. d ! v) Q) (out_edges g (arg_min_list (\<lambda>v. d ! v) Q))
           (d, color, remove1 (arg_min_list (\<lambda>v. d ! v) Q) Q) = Inr (d', color', Q')"
  shows "dij_visit_loop g target_node d color Q =
           (if target_node = Some (arg_min_list (\<lambda>v. d ! v) Q) then Some d'
            else dij_visit_loop g target_node d'
                   (color'[arg_min_list (\<lambda>v. d ! v) Q := black_color]) Q')"
  using assms by (subst dij_visit_loop.simps) (simp add: Let_def)

lemma dij_visit_loop_Nil: "dij_visit_loop g target_node d color [] = Some d"
  by (simp add: dij_visit_loop.simps)

lemma dij_visit_loop_unit:
  "unit_weights g \<Longrightarrow> \<exists>d'. dij_visit_loop g target_node d color Q = Some d'"
proof (induction g target_node d color Q rule: dij_visit_loop.induct)
  case (1 g target_node d color Q)
  show ?case
  proof (cases "Q = []")
    case True
    then show ?thesis by (simp add: dij_visit_loop_Nil)
  next
    case False
    let ?u = "arg_min_list (\<lambda>v. d ! v) Q"
    from "1.prems" have "\<forall>e \<in> set (out_edges g ?u). snd e = 1"
      by (simp add: unit_weights_iff)
    from dij_out_edges_unit [OF this]
    obtain r where r: "dij_out_edges ?u (out_edges g ?u) (d, color, remove1 ?u Q) = Inr r"
      by blast
    obtain d' color' Q' where r': "r = (d', color', Q')" by (cases r)
    show ?thesis
    proof (cases "target_node = Some ?u")
      case True
      with dij_visit_loop_unfold [OF False r [unfolded r']] show ?thesis by simp
    next
      case ne: False
      from "1.IH" [OF False refl r r' [symmetric] refl ne "1.prems"]
        dij_visit_loop_unfold [OF False r [unfolded r'], of target_node] ne
      show ?thesis by simp
    qed
  qed
qed

lemma friendship_degree_dij_unit:
  "unit_weights g \<Longrightarrow> \<exists>k. friendship_degree_dij c g e = Some k"
proof -
  assume uw: "unit_weights g"
  obtain d where "dijkstra_shortest_paths g (fst c) (if e then Some (snd c) else None) = Some d"
    using dij_visit_loop_unit [OF uw] unfolding dijkstra_shortest_paths_def by blast
  then show ?thesis
    by (cases e) (simp_all add: friendship_degree_dij_def)
qed

section \<open>Invariants of the state, Dijkstra variant\<close>

definition index_ok_dij :: "paymo_dij \<Rightarrow> bool" where
  "index_ok_dij s =
     (\<forall>a b. is_connected_dij (index s) (a, b) = (a \<le> b \<and> edge_dij a b (graph s)))"

definition inv_dij :: "paymo_dij \<Rightarrow> bool" where
  "inv_dij s = (registry_ok s \<and> closed_graph (targets (graph s)) \<and> unit_weights (graph s)
                \<and> index_ok_dij s)"

lemma inv_dij_empty: "inv_dij empty_dij"
  by (simp add: inv_dij_def registry_ok_def closed_graph_def unit_weights_def index_ok_dij_def
        empty_dij_def is_connected_dij_def edge_dij_def out_edges_def targets_def)

lemma add_user_inv_dij:
  assumes "inv_dij s" and "add_user uid s = (n, s')"
  shows "inv_dij s'"
proof -
  from assms(1) have reg: "registry_ok s" and cl: "closed_graph (targets (graph s))"
    and uw: "unit_weights (graph s)" and ix: "index_ok_dij s"
    by (simp_all add: inv_dij_def)
  note au = add_user_registry [OF reg assms(2)]
  have "closed_graph (targets (graph s'))"
    unfolding closed_graph_iff
  proof (intro allI ballI)
    fix x y
    assume "y \<in> set (out_edges (targets (graph s')) x)"
    with au(3) [of x] have "y \<in> set (out_edges (targets (graph s)) x)"
      by (simp add: out_edges_targets)
    with cl have "y < length (targets (graph s))"
      unfolding closed_graph_iff by blast
    with au(5) show "y < length (targets (graph s'))" by (simp add: length_targets)
  qed
  moreover from uw have "unit_weights (graph s')"
    by (simp add: unit_weights_iff au(3))
  moreover from ix have "index_ok_dij s'"
    by (simp add: index_ok_dij_def au(4) edge_dij_def au(3))
  ultimately show ?thesis using au(1) by (simp add: inv_dij_def)
qed

lemma update_network_dij_alt:
  "update_network_dij c s =
     (if \<not> edge_dij (fst c) (snd c) (graph s)
      then s\<lparr>graph := add_edge_dij (fst c) (snd c) 1 (graph s), index := insert c (index s)\<rparr>
      else s)"
  by (simp add: update_network_dij_def Let_def)

lemma update_network_dij_inv:
  assumes "inv_dij s" and c: "fst c \<le> snd c" "snd c < length (graph s)"
  shows "inv_dij (update_network_dij c s)"
proof (cases "edge_dij (fst c) (snd c) (graph s)")
  case True
  with assms(1) show ?thesis by (simp add: update_network_dij_alt)
next
  case False
  let ?s = "update_network_dij c s"
  from assms(1) have reg: "registry_ok s" and cl: "closed_graph (targets (graph s))"
    and uw: "unit_weights (graph s)" and ix: "index_ok_dij s"
    by (simp_all add: inv_dij_def)
  from False have g: "graph ?s = add_edge_dij (fst c) (snd c) 1 (graph s)"
    and i: "index ?s = insert c (index s)" and u: "users ?s = users s"
    by (simp_all add: update_network_dij_alt)
  from c have len: "length (graph ?s) = length (graph s)"
    by (simp add: g length_add_edge_dij)
  from reg have "registry_ok ?s" by (simp add: registry_ok_def len u)
  moreover from cl c have "closed_graph (targets (graph ?s))"
    by (simp add: g targets_add_edge_dij closed_graph_add_edge_bfs length_targets)
  moreover from uw have "unit_weights (graph ?s)"
    by (auto simp: unit_weights_iff g out_edges_add_edge_dij split: if_splits)
  moreover have "index_ok_dij ?s"
    unfolding index_ok_dij_def
  proof (intro allI)
    fix a b :: Vertex
    from ix have old: "is_connected_dij (index s) (a, b) = (a \<le> b \<and> edge_dij a b (graph s))"
      by (simp add: index_ok_dij_def)
    have e: "edge_dij a b (graph ?s)
             = (edge_dij a b (graph s) \<or> (a = fst c \<and> b = snd c) \<or> (a = snd c \<and> b = fst c))"
      by (simp add: g edge_dij_add_edge_dij)
    have m: "is_connected_dij (index ?s) (a, b)
             = ((a = fst c \<and> b = snd c) \<or> is_connected_dij (index s) (a, b))"
      by (auto simp: is_connected_dij_def i prod_eq_iff)
    from c(1) show "is_connected_dij (index ?s) (a, b) = (a \<le> b \<and> edge_dij a b (graph ?s))"
      unfolding e m old by auto
  qed
  ultimately show ?thesis by (simp add: inv_dij_def)
qed

lemma resolve_inv_dij:
  assumes "inv_dij s" and "resolve p s = (c, s2)"
  shows "inv_dij s2" and "fst c \<le> snd c" and "snd c < length (graph s2)"
proof -
  obtain n1 s1 where a1: "add_user (id1 p) s = (n1, s1)" by (cases "add_user (id1 p) s")
  obtain n2 s2' where a2: "add_user (id2 p) s1 = (n2, s2')" by (cases "add_user (id2 p) s1")
  from assms(2) a1 a2 have c: "c = create_connection n1 n2" and s2: "s2 = s2'"
    by (simp_all add: resolve_def)
  note i1 = add_user_inv_dij [OF assms(1) a1]
  note i2 = add_user_inv_dij [OF i1 a2]
  from i2 s2 show "inv_dij s2" by simp
  from assms(1) have "registry_ok s" by (simp add: inv_dij_def)
  note r1 = add_user_registry [OF this a1]
  note r2 = add_user_registry [OF r1(1) a2]
  from r1(2) r2(2, 5) have "n1 < length (graph s2)" "n2 < length (graph s2)"
    by (simp_all add: s2)
  then show "snd c < length (graph s2)" by (simp add: c create_connection_ordered)
  show "fst c \<le> snd c" by (simp add: c create_connection_ordered)
qed

lemma build_step_dij_resolve:
  "build_step_dij p s = (let (c, s2) = resolve p s in update_network_dij c s2)"
  by (simp add: build_step_dij_def resolve_def Let_def split_beta)

lemma stream_step_dij_resolve:
  "stream_step_dij p s =
     (let (c, s2) = resolve p s
      in if is_connected_dij (index s2) c then Some (1, s2)
         else map_option (\<lambda>friendship. (friendship, update_network_dij c s2))
                (friendship_degree_dij c (graph s2) True))"
  by (simp add: stream_step_dij_def resolve_def Let_def split_beta split: option.splits)

lemma build_step_dij_inv: "inv_dij s \<Longrightarrow> inv_dij (build_step_dij p s)"
proof -
  assume i: "inv_dij s"
  obtain c s2 where r: "resolve p s = (c, s2)" by (cases "resolve p s")
  from resolve_inv_dij [OF i r] show ?thesis
    by (simp add: build_step_dij_resolve r update_network_dij_inv)
qed

lemma stream_step_dij_inv:
  assumes "inv_dij s"
  shows "\<exists>k s'. stream_step_dij p s = Some (k, s') \<and> inv_dij s'"
proof -
  obtain c s2 where r: "resolve p s = (c, s2)" by (cases "resolve p s")
  note rs = resolve_inv_dij [OF assms r]
  from rs(1) have "unit_weights (graph s2)" by (simp add: inv_dij_def)
  from friendship_degree_dij_unit [OF this]
  obtain k where "friendship_degree_dij c (graph s2) True = Some k" by blast
  with update_network_dij_inv [OF rs] rs(1) show ?thesis
    by (simp add: stream_step_dij_resolve r)
qed

lemma build_paymo_network_dij_inv: "inv_dij s \<Longrightarrow> inv_dij (build_paymo_network_dij hs s)"
  by (induction hs arbitrary: s) (simp_all add: build_step_dij_inv)

lemma main_loop_dij_inv:
  "inv_dij s \<Longrightarrow> \<exists>out s'. main_loop_dij ps s = Some (out, s') \<and> inv_dij s'"
proof (induction ps arbitrary: s)
  case Nil
  then show ?case by simp
next
  case (Cons p ps)
  from stream_step_dij_inv [OF Cons.prems, of p]
  obtain k s1 where s1: "stream_step_dij p s = Some (k, s1)" "inv_dij s1" by blast
  from Cons.IH [OF s1(2)] obtain out s' where "main_loop_dij ps s1 = Some (out, s')" "inv_dij s'"
    by blast
  with s1 show ?case by simp
qed

section \<open>Edges and index entries are never removed\<close>

lemma out_edges_add_user:
  "add_user uid s = (n, s') \<Longrightarrow> out_edges (graph s') x = out_edges (graph s) x"
  by (erule add_user_cases) (simp_all add: out_edges_add_vertex)

lemma index_add_user: "add_user uid s = (n, s') \<Longrightarrow> index s' = index s"
  by (erule add_user_cases) simp_all

lemma resolve_keeps:
  assumes "resolve p s = (c, s2)"
  shows "out_edges (graph s2) x = out_edges (graph s) x" and "index s2 = index s"
proof -
  obtain n1 s1 where a1: "add_user (id1 p) s = (n1, s1)" by (cases "add_user (id1 p) s")
  obtain n2 s2' where a2: "add_user (id2 p) s1 = (n2, s2')" by (cases "add_user (id2 p) s1")
  from assms a1 a2 have s2: "s2 = s2'" by (simp add: resolve_def)
  from out_edges_add_user [OF a1] out_edges_add_user [OF a2] s2
  show "out_edges (graph s2) x = out_edges (graph s) x" by simp
  from index_add_user [OF a1] index_add_user [OF a2] s2 show "index s2 = index s" by simp
qed

lemma update_network_bfs_mono:
  "edge_bfs a b (graph s) \<Longrightarrow> edge_bfs a b (graph (update_network_bfs c s))"
  "is_connected_bfs (index s) k \<Longrightarrow> is_connected_bfs (index (update_network_bfs c s)) k"
  by (simp_all add: update_network_bfs_alt edge_bfs_add_edge_bfs is_connected_bfs_key)

lemma update_network_dij_mono:
  "edge_dij a b (graph s) \<Longrightarrow> edge_dij a b (graph (update_network_dij c s))"
  "is_connected_dij (index s) k \<Longrightarrow> is_connected_dij (index (update_network_dij c s)) k"
  by (simp_all add: update_network_dij_alt edge_dij_add_edge_dij is_connected_dij_def)

lemma stream_step_bfs_mono:
  assumes "edge_bfs a b (graph s)" and "is_connected_bfs (index s) k"
  shows "edge_bfs a b (graph (snd (stream_step_bfs p s)))"
    and "is_connected_bfs (index (snd (stream_step_bfs p s))) k"
proof -
  obtain c s2 where r: "resolve p s = (c, s2)" by (cases "resolve p s")
  let ?s3 = "s2\<lparr>index := snd (friends_lookup (index s2) (connection_key c))\<rparr>"
  from assms resolve_keeps [OF r] have "edge_bfs a b (graph ?s3)" "is_connected_bfs (index ?s3) k"
    by (simp_all add: edge_bfs_def is_connected_bfs_lookup)
  with update_network_bfs_mono(1) [of a b ?s3 c] update_network_bfs_mono(2) [of ?s3 k c]
  show "edge_bfs a b (graph (snd (stream_step_bfs p s)))"
    and "is_connected_bfs (index (snd (stream_step_bfs p s))) k"
    by (simp_all add: stream_step_bfs_resolve r Let_def)
qed

lemma main_loop_bfs_mono:
  "edge_bfs a b (graph s) \<and> is_connected_bfs (index s) k
   \<Longrightarrow> edge_bfs a b (graph (snd (main_loop_bfs qs s)))
       \<and> is_connected_bfs (index (snd (main_loop_bfs qs s))) k"
proof (induction qs arbitrary: s)
  case Nil
  then show ?case by simp
next
  case (Cons q qs)
  from Cons.prems stream_step_bfs_mono [of a b s k q]
  have "edge_bfs a b (graph (snd (stream_step_bfs q s)))
        \<and> is_connected_bfs (index (snd (stream_step_bfs q s))) k"
    by simp
  from Cons.IH [OF this] show ?case by (simp add: split_beta)
qed

lemma stream_step_dij_mono:
  assumes "edge_dij a b (graph s)" and "is_connected_dij (index s) k"
    and "stream_step_dij p s = Some (f, s')"
  shows "edge_dij a b (graph s')" and "is_connected_dij (index s') k"
proof -
  obtain c s2 where r: "resolve p s = (c, s2)" by (cases "resolve p s")
  from assms(1, 2) resolve_keeps [OF r] have "edge_dij a b (graph s2)" "is_connected_dij (index s2) k"
    by (simp_all add: edge_dij_def)
  with update_network_dij_mono(1) [of a b s2 c] update_network_dij_mono(2) [of s2 k c] assms(3)
  show "edge_dij a b (graph s')" and "is_connected_dij (index s') k"
    by (auto simp: stream_step_dij_resolve r split: if_splits)
qed

lemma main_loop_dij_mono:
  "edge_dij a b (graph s) \<and> is_connected_dij (index s) k \<Longrightarrow> main_loop_dij qs s = Some (out, s')
   \<Longrightarrow> edge_dij a b (graph s') \<and> is_connected_dij (index s') k"
proof (induction qs arbitrary: s out)
  case Nil
  then show ?case by simp
next
  case (Cons q qs)
  from Cons.prems(2) obtain f s1 out1 where
    s1: "stream_step_dij q s = Some (f, s1)" and rest: "main_loop_dij qs s1 = Some (out1, s')"
    by (auto split: option.splits)
  from Cons.prems(1) stream_step_dij_mono [OF _ _ s1, of a b k]
  have "edge_dij a b (graph s1) \<and> is_connected_dij (index s1) k" by simp
  from Cons.IH [OF this rest] show ?case .
qed

section \<open>Live mode: the search runs before the insertion\<close>

lemma stream_step_bfs_search:
  assumes inv: "inv_bfs s" and r: "resolve p s = (c, s2)"
    and nc: "\<not> is_connected_bfs (index s2) c"
  shows "fst (stream_step_bfs p s) = friendship_degree_bfs c (graph s2)"
    and "\<not> edge_bfs (fst c) (snd c) (graph s2)"
    and "graph (snd (stream_step_bfs p s)) = add_edge_bfs (fst c) (snd c) (graph s2)"
    and "edge_bfs (fst c) (snd c) (graph (snd (stream_step_bfs p s)))"
    and "is_connected_bfs (index (snd (stream_step_bfs p s))) c"
proof -
  note rs = resolve_inv_bfs [OF inv r]
  from rs(1) have reg: "registry_ok s2" and ix: "index_ok_bfs s2" by (simp_all add: inv_bfs_def)
  from registry_bound [OF reg] rs(2, 3) have "fst c < 2 ^ 32" "snd c < 2 ^ 32" by simp_all
  with ix have "is_connected_bfs (index s2) (fst c, snd c)
                = (fst c \<le> snd c \<and> edge_bfs (fst c) (snd c) (graph s2))"
    unfolding index_ok_bfs_def by blast
  with nc rs(2) show ne: "\<not> edge_bfs (fst c) (snd c) (graph s2)" by simp
  from nc show "fst (stream_step_bfs p s) = friendship_degree_bfs c (graph s2)"
    by (simp add: stream_step_bfs_resolve r Let_def)
  from nc ne show g: "graph (snd (stream_step_bfs p s)) = add_edge_bfs (fst c) (snd c) (graph s2)"
    by (simp add: stream_step_bfs_resolve r Let_def update_network_bfs_alt)
  show "edge_bfs (fst c) (snd c) (graph (snd (stream_step_bfs p s)))"
    by (simp add: g edge_bfs_add_edge_bfs)
  from nc ne show "is_connected_bfs (index (snd (stream_step_bfs p s))) c"
    by (simp add: stream_step_bfs_resolve r Let_def update_network_bfs_alt is_connected_bfs_key)
qed

lemma stream_step_dij_search:
  assumes inv: "inv_dij s" and r: "resolve p s = (c, s2)"
    and nc: "\<not> is_connected_dij (index s2) c"
  shows "\<exists>f s'. stream_step_dij p s = Some (f, s')
           \<and> friendship_degree_dij c (graph s2) True = Some f
           \<and> \<not> edge_dij (fst c) (snd c) (graph s2)
           \<and> graph s' = add_edge_dij (fst c) (snd c) 1 (graph s2)
           \<and> edge_dij (fst c) (snd c) (graph s')
           \<and> is_connected_dij (index s') c"
proof -
  note rs = resolve_inv_dij [OF inv r]
  from rs(1) have uw: "unit_weights (graph s2)" and ix: "index_ok_dij s2"
    by (simp_all add: inv_dij_def)
  from ix have "is_connected_dij (index s2) (fst c, snd c)
                = (fst c \<le> snd c \<and> edge_dij (fst c) (snd c) (graph s2))"
    unfolding index_ok_dij_def by blast
  with nc rs(2) have ne: "\<not> edge_dij (fst c) (snd c) (graph s2)" by simp
  from friendship_degree_dij_unit [OF uw]
  obtain f where f: "friendship_degree_dij c (graph s2) True = Some f" by blast
  from nc f have "stream_step_dij p s = Some (f, update_network_dij c s2)"
    by (simp add: stream_step_dij_resolve r)
  with f ne show ?thesis
    by (simp add: update_network_dij_alt edge_dij_add_edge_dij is_connected_dij_def)
qed

lemma main_loop_bfs_hd:
  "hd (fst (main_loop_bfs (p # qs) s))
   = (fst (stream_step_bfs p s), classify (fst (stream_step_bfs p s)))"
  by (simp add: split_beta)

lemma main_loop_dij_hd:
  assumes "stream_step_dij p s = Some (f, s')" and "main_loop_dij qs s' = Some (out, s'')"
  shows "main_loop_dij (p # qs) s = Some ((f, classify f) # out, s'')"
  using assms by simp

text \<open>
  C1. In live mode, for a streamed payment whose two resolved nodes are not directly
  connected according to the index, the degree that is printed and classified is the
  result of the search on the graph as it is before the edge of this payment is inserted
  (the graph after the two users have been registered, in which the two nodes have no
  edge); the state after the pass has this edge in the graph and its entry in the index;
  and both are still there after any further streamed payments. The states are the ones
  the program reaches: any historic payments loaded into the empty system, then any
  streamed payments. In the Dijkstra variant the search returns (no edge has a negative
  weight) and the same holds.
\<close>

theorem live_mode_search_before_insert:
  assumes "s = snd (main_loop_bfs ps (build_paymo_network_bfs hs empty_bfs))"
    and "resolve p s = (c, s2)"
    and "\<not> is_connected_bfs (index s2) c"
    and "main_loop_dij ps' (build_paymo_network_dij hs' empty_dij) = Some (out, t)"
    and "resolve p' t = (c', t2)"
    and "\<not> is_connected_dij (index t2) c'"
  shows "fst (stream_step_bfs p s) = friendship_degree_bfs c (graph s2)
       \<and> hd (fst (main_loop_bfs (p # qs) s))
           = (friendship_degree_bfs c (graph s2), classify (friendship_degree_bfs c (graph s2)))
       \<and> \<not> edge_bfs (fst c) (snd c) (graph s2)
       \<and> graph (snd (stream_step_bfs p s)) = add_edge_bfs (fst c) (snd c) (graph s2)
       \<and> is_connected_bfs (index (snd (stream_step_bfs p s))) c
       \<and> edge_bfs (fst c) (snd c) (graph (snd (main_loop_bfs qs (snd (stream_step_bfs p s)))))
       \<and> is_connected_bfs (index (snd (main_loop_bfs qs (snd (stream_step_bfs p s))))) c
       \<and> (\<exists>f t' out' t''.
             stream_step_dij p' t = Some (f, t')
           \<and> friendship_degree_dij c' (graph t2) True = Some f
           \<and> \<not> edge_dij (fst c') (snd c') (graph t2)
           \<and> graph t' = add_edge_dij (fst c') (snd c') 1 (graph t2)
           \<and> is_connected_dij (index t') c'
           \<and> main_loop_dij (p' # qs') t = Some ((f, classify f) # out', t'')
           \<and> edge_dij (fst c') (snd c') (graph t'')
           \<and> is_connected_dij (index t'') c')"
proof -
  have "inv_bfs s"
    unfolding assms(1) by (intro main_loop_bfs_inv build_paymo_network_bfs_inv inv_bfs_empty)
  note b = stream_step_bfs_search [OF this assms(2, 3)]
  from b(4, 5) have later:
    "edge_bfs (fst c) (snd c) (graph (snd (main_loop_bfs qs (snd (stream_step_bfs p s)))))
     \<and> is_connected_bfs (index (snd (main_loop_bfs qs (snd (stream_step_bfs p s))))) c"
    by (intro main_loop_bfs_mono) simp
  have "inv_dij (build_paymo_network_dij hs' empty_dij)"
    by (intro build_paymo_network_dij_inv inv_dij_empty)
  from main_loop_dij_inv [OF this, of ps'] assms(4) have it: "inv_dij t" by simp
  from stream_step_dij_search [OF it assms(5, 6)]
  obtain f t' where d: "stream_step_dij p' t = Some (f, t')"
    "friendship_degree_dij c' (graph t2) True = Some f"
    "\<not> edge_dij (fst c') (snd c') (graph t2)"
    "graph t' = add_edge_dij (fst c') (snd c') 1 (graph t2)"
    "edge_dij (fst c') (snd c') (graph t')" "is_connected_dij (index t') c'"
    by blast
  from stream_step_dij_inv [OF it, of p'] d(1) have "inv_dij t'" by simp
  from main_loop_dij_inv [OF this, of qs']
  obtain out' t'' where l: "main_loop_dij qs' t' = Some (out', t'')" by blast
  from main_loop_dij_mono [OF _ l, of "fst c'" "snd c'" c'] d(5, 6)
  have "edge_dij (fst c') (snd c') (graph t'') \<and> is_connected_dij (index t'') c'" by simp
  with d main_loop_dij_hd [OF d(1) l] have "\<exists>f t' out' t''.
             stream_step_dij p' t = Some (f, t')
           \<and> friendship_degree_dij c' (graph t2) True = Some f
           \<and> \<not> edge_dij (fst c') (snd c') (graph t2)
           \<and> graph t' = add_edge_dij (fst c') (snd c') 1 (graph t2)
           \<and> is_connected_dij (index t') c'
           \<and> main_loop_dij (p' # qs') t = Some ((f, classify f) # out', t'')
           \<and> edge_dij (fst c') (snd c') (graph t'')
           \<and> is_connected_dij (index t'') c'"
    by blast
  with b(1, 2, 3, 5) later main_loop_bfs_hd [of p qs s] show ?thesis by simp
qed

theorem live_mode_search_before_insert_witness:
  "fst (resolve (pay 1 3) (build_paymo_network_bfs scenario_historic empty_bfs)) = (0, 2)
   \<and> \<not> is_connected_bfs
         (index (snd (resolve (pay 1 3) (build_paymo_network_bfs scenario_historic empty_bfs))))
         (0, 2)
   \<and> fst (resolve (pay 1 3) (build_paymo_network_dij scenario_historic empty_dij)) = (0, 2)
   \<and> \<not> is_connected_dij
         (index (snd (resolve (pay 1 3) (build_paymo_network_dij scenario_historic empty_dij))))
         (0, 2)
   \<and> fst (stream_step_bfs (pay 1 3) (build_paymo_network_bfs scenario_historic empty_bfs)) = 2
   \<and> \<not> edge_bfs 0 2
         (graph (snd (resolve (pay 1 3) (build_paymo_network_bfs scenario_historic empty_bfs))))
   \<and> edge_bfs 0 2
         (graph (snd (main_loop_bfs [pay 1 4]
            (snd (stream_step_bfs (pay 1 3)
                   (build_paymo_network_bfs scenario_historic empty_bfs))))))
   \<and> is_connected_bfs
         (index (snd (main_loop_bfs [pay 1 4]
            (snd (stream_step_bfs (pay 1 3)
                   (build_paymo_network_bfs scenario_historic empty_bfs))))))
         (0, 2)"
proof -
  let ?S = "build_paymo_network_bfs scenario_historic empty_bfs"
  let ?T = "build_paymo_network_dij scenario_historic empty_dij"
  have c: "fst (resolve (pay 1 3) ?S) = (0, 2)" by code_simp
  have c': "fst (resolve (pay 1 3) ?T) = (0, 2)" by code_simp
  have nc: "\<not> is_connected_bfs (index (snd (resolve (pay 1 3) ?S))) (0, 2)" by code_simp
  have nc': "\<not> is_connected_dij (index (snd (resolve (pay 1 3) ?T))) (0, 2)" by code_simp
  have d: "friendship_degree_bfs (0, 2) (graph (snd (resolve (pay 1 3) ?S))) = 2" by code_simp
  have s: "?S = snd (main_loop_bfs [] (build_paymo_network_bfs scenario_historic empty_bfs))"
    by simp
  have t: "main_loop_dij [] (build_paymo_network_dij scenario_historic empty_dij) = Some ([], ?T)"
    by simp
  have r: "resolve (pay 1 3) ?S = ((0, 2), snd (resolve (pay 1 3) ?S))"
    by (simp add: prod_eq_iff c)
  have r': "resolve (pay 1 3) ?T = ((0, 2), snd (resolve (pay 1 3) ?T))"
    by (simp add: prod_eq_iff c')
  from live_mode_search_before_insert [OF s r nc t r' nc', of "[pay 1 4]"] c c' nc nc' d
  show ?thesis by simp
qed

section \<open>The index and the edge set\<close>

lemma index_ok_bfs_at:
  assumes "inv_bfs s" and "x < num_vertices (graph s)" and "y < num_vertices (graph s)"
  shows "is_connected_bfs (index s) (x, y) = (x \<le> y \<and> edge_bfs x y (graph s))"
proof -
  from assms(1) have reg: "registry_ok s" and ix: "index_ok_bfs s" by (simp_all add: inv_bfs_def)
  from registry_bound [OF reg] assms(2, 3) have "x < 2 ^ 32 \<and> y < 2 ^ 32"
    by (simp add: num_vertices_def)
  with ix show ?thesis unfolding index_ok_bfs_def by blast
qed

lemma connection_key_inj_nodes:
  assumes "inv_bfs s" and "x < num_vertices (graph s)" "y < num_vertices (graph s)"
    "x' < num_vertices (graph s)" "y' < num_vertices (graph s)"
    and "connection_key (x, y) = connection_key (x', y')"
  shows "x = x' \<and> y = y'"
proof -
  from assms(1) have "registry_ok s" by (simp add: inv_bfs_def)
  from registry_bound [OF this] assms(2-5)
  have "fst (x, y) < 2 ^ 32" "snd (x, y) < 2 ^ 32" "fst (x', y') < 2 ^ 32" "snd (x', y') < 2 ^ 32"
    by (simp_all add: num_vertices_def)
  from connection_key_inj [OF this assms(6)] show ?thesis by simp
qed

text \<open>
  C5. In every state the BFS variant reaches, the index answers true for a pair of nodes
  exactly when the pair is canonical (smaller node first) and an edge of the graph. When
  \<^verbatim>\<open>update_network\<close> inserts a new edge for the connection of a payment, the answer for
  this connection becomes true and the answer for every other pair of nodes stays as it
  was; the state after the pass of either loop is again consistent. The key function is
  injective: on the pairs of nodes of the graph, through the conversion of the vertex
  descriptors to \<^verbatim>\<open>int\<close>, and on all pairs of 32 bit integers.
\<close>

theorem index_consistent_with_edges:
  assumes "s = snd (main_loop_bfs ps (build_paymo_network_bfs hs empty_bfs))"
    and "resolve p s = (c, s2)"
    and "\<not> edge_bfs (fst c) (snd c) (graph s2)"
  shows "build_step_bfs p s = update_network_bfs c s2
       \<and> edge_bfs (fst c) (snd c) (graph (update_network_bfs c s2))
       \<and> is_connected_bfs (index (update_network_bfs c s2)) c
       \<and> (\<forall>x y. x < num_vertices (graph s2) \<and> y < num_vertices (graph s2) \<and> (x, y) \<noteq> c
             \<longrightarrow> is_connected_bfs (index (update_network_bfs c s2)) (x, y)
                 = is_connected_bfs (index s2) (x, y))
       \<and> (\<forall>x y. x < num_vertices (graph s2) \<and> y < num_vertices (graph s2)
             \<longrightarrow> is_connected_bfs (index s2) (x, y) = (x \<le> y \<and> edge_bfs x y (graph s2)))
       \<and> (\<forall>x y. x < num_vertices (graph (build_step_bfs p s))
               \<and> y < num_vertices (graph (build_step_bfs p s))
             \<longrightarrow> is_connected_bfs (index (build_step_bfs p s)) (x, y)
                 = (x \<le> y \<and> edge_bfs x y (graph (build_step_bfs p s))))
       \<and> (\<forall>x y. x < num_vertices (graph (snd (stream_step_bfs p s)))
               \<and> y < num_vertices (graph (snd (stream_step_bfs p s)))
             \<longrightarrow> is_connected_bfs (index (snd (stream_step_bfs p s))) (x, y)
                 = (x \<le> y \<and> edge_bfs x y (graph (snd (stream_step_bfs p s)))))
       \<and> (\<forall>x y x' y'. x < num_vertices (graph s2) \<and> y < num_vertices (graph s2)
               \<and> x' < num_vertices (graph s2) \<and> y' < num_vertices (graph s2)
               \<and> perfect_hash (to_int (int x)) (to_int (int y))
                   = perfect_hash (to_int (int x')) (to_int (int y'))
             \<longrightarrow> x = x' \<and> y = y')
       \<and> (\<forall>i j i' j'. int_range i \<and> int_range j \<and> int_range i' \<and> int_range j'
               \<and> perfect_hash i j = perfect_hash i' j'
             \<longrightarrow> i = i' \<and> j = j')"
proof -
  have inv: "inv_bfs s"
    unfolding assms(1) by (intro main_loop_bfs_inv build_paymo_network_bfs_inv inv_bfs_empty)
  note rs = resolve_inv_bfs [OF inv assms(2)]
  let ?s' = "update_network_bfs c s2"
  have step: "build_step_bfs p s = ?s'"
    by (simp add: build_step_bfs_resolve assms(2))
  have e: "edge_bfs (fst c) (snd c) (graph ?s')"
    by (simp add: update_network_bfs_alt edge_bfs_add_edge_bfs)
  from assms(3) have ic: "is_connected_bfs (index ?s') c"
    by (simp add: update_network_bfs_alt is_connected_bfs_key)
  have others: "is_connected_bfs (index ?s') (x, y) = is_connected_bfs (index s2) (x, y)"
    if "x < num_vertices (graph s2) \<and> y < num_vertices (graph s2) \<and> (x, y) \<noteq> c" for x y
  proof -
    from rs(2, 3) have "fst c < num_vertices (graph s2)" "snd c < num_vertices (graph s2)"
      by (simp_all add: num_vertices_def)
    with connection_key_inj_nodes [OF rs(1), of x y "fst c" "snd c"] that
    have "connection_key (x, y) \<noteq> connection_key c" by auto
    then show ?thesis by (simp add: update_network_bfs_alt is_connected_bfs_key)
  qed
  note i2 = index_ok_bfs_at [OF rs(1)]
  note ib = index_ok_bfs_at [OF build_step_bfs_inv [OF inv, of p]]
  note il = index_ok_bfs_at [OF stream_step_bfs_inv [OF inv, of p]]
  have keys: "x = x' \<and> y = y'"
    if "x < num_vertices (graph s2) \<and> y < num_vertices (graph s2)
        \<and> x' < num_vertices (graph s2) \<and> y' < num_vertices (graph s2)
        \<and> perfect_hash (to_int (int x)) (to_int (int y))
            = perfect_hash (to_int (int x')) (to_int (int y'))" for x y x' y'
    using connection_key_inj_nodes [OF rs(1), of x y x' y'] that
    by (simp add: connection_key_def)
  have ph: "i = i' \<and> j = j'"
    if "int_range i \<and> int_range j \<and> int_range i' \<and> int_range j'
        \<and> perfect_hash i j = perfect_hash i' j'" for i j i' j'
    using perfect_hash_inj [of i j i' j'] that by blast
  from step e ic others i2 ib il keys ph show ?thesis by blast
qed

theorem index_consistent_with_edges_witness:
  "fst (resolve (pay 1 3) (build_paymo_network_bfs scenario_historic empty_bfs)) = (0, 2)
   \<and> \<not> edge_bfs 0 2
         (graph (snd (resolve (pay 1 3) (build_paymo_network_bfs scenario_historic empty_bfs))))
   \<and> is_connected_bfs
        (index (update_network_bfs (0, 2)
           (snd (resolve (pay 1 3) (build_paymo_network_bfs scenario_historic empty_bfs)))))
        (0, 2)
   \<and> is_connected_bfs
        (index (update_network_bfs (0, 2)
           (snd (resolve (pay 1 3) (build_paymo_network_bfs scenario_historic empty_bfs)))))
        (1, 3)
      = is_connected_bfs
          (index (snd (resolve (pay 1 3) (build_paymo_network_bfs scenario_historic empty_bfs))))
          (1, 3)"
proof -
  let ?S = "build_paymo_network_bfs scenario_historic empty_bfs"
  let ?s2 = "snd (resolve (pay 1 3) ?S)"
  have c: "fst (resolve (pay 1 3) ?S) = (0, 2)" by code_simp
  have ne: "\<not> edge_bfs (fst (0 :: nat, 2 :: nat)) (snd (0 :: nat, 2 :: nat)) (graph ?s2)"
    by code_simp
  have n: "num_vertices (graph ?s2) = 4" by code_simp
  have s: "?S = snd (main_loop_bfs [] (build_paymo_network_bfs scenario_historic empty_bfs))"
    by simp
  have r: "resolve (pay 1 3) ?S = ((0, 2), ?s2)"
    by (simp add: prod_eq_iff c)
  from index_consistent_with_edges [OF s r ne] have
    "is_connected_bfs (index (update_network_bfs (0, 2) ?s2)) (0, 2)"
    and "\<forall>x y. x < num_vertices (graph ?s2) \<and> y < num_vertices (graph ?s2) \<and> (x, y) \<noteq> (0, 2)
             \<longrightarrow> is_connected_bfs (index (update_network_bfs (0, 2) ?s2)) (x, y)
                 = is_connected_bfs (index ?s2) (x, y)"
    by blast+
  with c ne n show ?thesis by simp
qed

section \<open>Shortest paths\<close>

text \<open>
  \<open>walk g s k v\<close>: there is a path of \<open>k\<close> edges from \<open>s\<close> to \<open>v\<close>, following stored
  out-edges. The distance from \<open>s\<close> to a vertex that can be reached is the least such \<open>k\<close>.
\<close>

inductive walk :: "Graph_bfs \<Rightarrow> Vertex \<Rightarrow> nat \<Rightarrow> Vertex \<Rightarrow> bool" for g s where
  walk_start: "walk g s 0 s"
| walk_step: "walk g s k u \<Longrightarrow> v \<in> set (out_edges g u) \<Longrightarrow> walk g s (Suc k) v"

definition reachable :: "Graph_bfs \<Rightarrow> Vertex \<Rightarrow> Vertex \<Rightarrow> bool" where
  "reachable g s v = (\<exists>k. walk g s k v)"

definition distance :: "Graph_bfs \<Rightarrow> Vertex \<Rightarrow> Vertex \<Rightarrow> nat" where
  "distance g s v = (LEAST k. walk g s k v)"

definition shortest_path_degree :: "Graph_bfs \<Rightarrow> Vertex \<Rightarrow> Vertex \<Rightarrow> int" where
  \<comment> \<open>the degree of separation: the distance, or the sentinel for a target out of reach\<close>
  "shortest_path_degree g s t = (if reachable g s t then int (distance g s t) else INT_MAX)"

lemma distance_le: "walk g s k v \<Longrightarrow> distance g s v \<le> k"
  unfolding distance_def by (rule Least_le)

lemma walk_distance: "reachable g s v \<Longrightarrow> walk g s (distance g s v) v"
  unfolding distance_def reachable_def by (erule exE) (rule LeastI)

lemma distance_self: "distance g s s = 0"
  using distance_le [OF walk_start, of g s] by simp

lemma reachable_self: "reachable g s s"
  unfolding reachable_def by (blast intro: walk_start)

lemma reachable_edge:
  assumes "reachable g s u" and "v \<in> set (out_edges g u)"
  shows "reachable g s v" and "distance g s v \<le> Suc (distance g s u)"
proof -
  from walk_step [OF walk_distance [OF assms(1)] assms(2)]
  have w: "walk g s (Suc (distance g s u)) v" .
  then show "reachable g s v" unfolding reachable_def by blast
  from w show "distance g s v \<le> Suc (distance g s u)" by (rule distance_le)
qed

lemma walk_in_range:
  assumes "closed_graph g" and "s < length g"
  shows "walk g s k v \<Longrightarrow> v < length g"
  by (induction rule: walk.induct) (auto simp: assms closed_graph_at)

text \<open>
  A walk from a discovered start to an undiscovered vertex crosses, before its end, an edge
  from a discovered vertex to an undiscovered one.
\<close>

lemma walk_first_white:
  assumes "get_color color s \<noteq> white_color"
  shows "walk g s k v \<Longrightarrow> get_color color v = white_color
         \<Longrightarrow> \<exists>j p w. j < k \<and> walk g s j p \<and> get_color color p \<noteq> white_color
                    \<and> w \<in> set (out_edges g p) \<and> get_color color w = white_color"
proof (induction rule: walk.induct)
  case walk_start
  with assms show ?case by simp
next
  case (walk_step k u v)
  show ?case
  proof (cases "get_color color u = white_color")
    case True
    from walk_step.IH [OF True] show ?thesis by (blast intro: less_SucI)
  next
    case False
    with walk_step.hyps walk_step.prems show ?thesis by blast
  qed
qed

section \<open>The invariant of both searches\<close>

definition settled :: "Graph_bfs \<Rightarrow> Vertex \<Rightarrow> int list \<Rightarrow> default_color_type list \<Rightarrow> bool" where
  \<comment> \<open>undiscovered vertices are at the infinity, discovered ones at their distance, and
      all neighbours of a finished vertex are discovered\<close>
  "settled g s d color =
     (length d = length g \<and> length color = length g \<and> s < length g
      \<and> get_color color s \<noteq> white_color
      \<and> (\<forall>v. get_color color v = white_color \<longrightarrow> d ! v = INT_MAX)
      \<and> (\<forall>v. v < length g \<and> get_color color v \<noteq> white_color \<longrightarrow>
             reachable g s v \<and> d ! v = int (distance g s v)
             \<and> d ! v < int (length g - whites color))
      \<and> (\<forall>v w. v < length g \<and> get_color color v = black_color \<and> w \<in> set (out_edges g v) \<longrightarrow>
             get_color color w \<noteq> white_color))"

definition visiting ::
  "Graph_bfs \<Rightarrow> Vertex \<Rightarrow> int list \<Rightarrow> default_color_type list \<Rightarrow> Vertex \<Rightarrow> bool" where
  \<comment> \<open>while the out-edges of \<open>u\<close> are examined: \<open>u\<close> is gray and no gray vertex is nearer\<close>
  "visiting g s d color u =
     (settled g s d color \<and> get_color color u = gray_color
      \<and> (\<forall>v. get_color color v = gray_color \<longrightarrow> d ! u \<le> d ! v))"

lemma get_color_white_in_range: "get_color color v = white_color \<Longrightarrow> v < length color"
  by (simp add: get_color_def split: if_splits)

lemma get_color_gray_in_range: "get_color color v = gray_color \<Longrightarrow> v < length color"
  by (simp add: get_color_def split: if_splits)

lemma whites_le_length: "whites color \<le> length color"
  by (simp add: whites_def)

lemma whites_update_nonwhite:
  "get_color color u \<noteq> white_color \<Longrightarrow> c \<noteq> white_color \<Longrightarrow> whites (color[u := c]) = whites color"
proof (induction color arbitrary: u)
  case Nil
  then show ?case by simp
next
  case (Cons x xs)
  show ?case
  proof (cases u)
    case 0
    with Cons.prems show ?thesis by (simp add: whites_def get_color_def)
  next
    case (Suc m)
    with Cons.prems have "get_color xs m \<noteq> white_color"
      by (simp add: get_color_def split: if_splits)
    from Cons.IH [OF this Cons.prems(2)] Suc show ?thesis by (simp add: whites_def)
  qed
qed

text \<open>The distance of a vertex discovered from \<open>u\<close> is one more than the distance of \<open>u\<close>.\<close>

lemma discovered_distance:
  assumes vis: "visiting g s d color u" and cl: "closed_graph g"
    and e: "v \<in> set (out_edges g u)" and w: "get_color color v = white_color"
  shows "reachable g s v" and "distance g s v = Suc (distance g s u)"
proof -
  from vis have st: "settled g s d color" and gu: "get_color color u = gray_color"
    and least: "\<forall>x. get_color color x = gray_color \<longrightarrow> d ! u \<le> d ! x"
    by (simp_all add: visiting_def)
  from st have len: "length color = length g" and s: "s < length g"
    and cs: "get_color color s \<noteq> white_color"
    and exact: "\<And>x. x < length g \<Longrightarrow> get_color color x \<noteq> white_color \<Longrightarrow>
                  reachable g s x \<and> d ! x = int (distance g s x)"
    and closure: "\<And>x y. x < length g \<Longrightarrow> get_color color x = black_color \<Longrightarrow>
                  y \<in> set (out_edges g x) \<Longrightarrow> get_color color y \<noteq> white_color"
    by (simp_all add: settled_def)
  from gu len have u: "u < length g" by (auto dest: get_color_gray_in_range)
  from exact [OF u] gu have ru: "reachable g s u" and du: "d ! u = int (distance g s u)"
    by simp_all
  from reachable_edge [OF ru e] have rv: "reachable g s v"
    and up: "distance g s v \<le> Suc (distance g s u)" .
  from rv show "reachable g s v" .
  have "Suc (distance g s u) \<le> k" if k: "walk g s k v" for k
  proof -
    from walk_first_white [OF cs k w] obtain j p y where
      j: "j < k" and p: "walk g s j p" and cp: "get_color color p \<noteq> white_color"
      and y: "y \<in> set (out_edges g p)" "get_color color y = white_color"
      by blast
    from walk_in_range [OF cl s p] have pr: "p < length g" .
    from closure [OF pr _ y(1)] y(2) have "get_color color p \<noteq> black_color" by blast
    with cp have "get_color color p = gray_color" by (cases "get_color color p") simp_all
    with least have "d ! u \<le> d ! p" by blast
    with exact [OF pr cp] du have "distance g s u \<le> distance g s p" by simp
    also from p have "\<dots> \<le> j" by (rule distance_le)
    finally show ?thesis using j by simp
  qed
  from this [OF walk_distance [OF rv]] up
  show "distance g s v = Suc (distance g s u)" by simp
qed

lemma settledD:
  assumes "settled g s d color"
  shows "length d = length g" and "length color = length g" and "s < length g"
    and "get_color color s \<noteq> white_color"
    and "\<And>x. get_color color x = white_color \<Longrightarrow> d ! x = INT_MAX"
    and "\<And>x. x < length g \<Longrightarrow> get_color color x \<noteq> white_color \<Longrightarrow> reachable g s x"
    and "\<And>x. x < length g \<Longrightarrow> get_color color x \<noteq> white_color
           \<Longrightarrow> d ! x = int (distance g s x)"
    and "\<And>x. x < length g \<Longrightarrow> get_color color x \<noteq> white_color
           \<Longrightarrow> d ! x < int (length g - whites color)"
    and "\<And>x y. x < length g \<Longrightarrow> get_color color x = black_color
           \<Longrightarrow> y \<in> set (out_edges g x) \<Longrightarrow> get_color color y \<noteq> white_color"
  using assms unfolding settled_def by blast+

lemma settled_init:
  assumes "s < length g"
  shows "settled g s ((replicate (length g) INT_MAX)[s := 0])
           ((replicate (length g) white_color)[s := gray_color])"
proof -
  let ?n = "length g"
  let ?c = "(replicate ?n white_color)[s := gray_color]"
  let ?d = "(replicate ?n INT_MAX)[s := 0]"
  from assms have ws: "get_color (replicate ?n white_color) s = white_color"
    by (simp add: get_color_def)
  have "whites (replicate ?n white_color) = ?n" by (simp add: whites_def)
  with whites_update_gray [OF ws] have wh: "Suc (whites ?c) = ?n" by simp
  have col: "get_color ?c v = (if v = s then gray_color
                               else if v < ?n then white_color else black_color)" for v
    using assms by (simp add: get_color_update) (simp add: get_color_def)
  show ?thesis
    unfolding settled_def
  proof (intro conjI allI impI)
    show "length ?d = ?n" "length ?c = ?n" "s < ?n" using assms by simp_all
    show "get_color ?c s \<noteq> white_color" by (simp add: col)
  next
    fix v
    assume "get_color ?c v = white_color"
    then have "v \<noteq> s" "v < ?n" by (simp_all add: col split: if_splits)
    then show "?d ! v = INT_MAX" by simp
  next
    fix v
    assume "v < ?n \<and> get_color ?c v \<noteq> white_color"
    then have v: "v = s" by (simp add: col split: if_splits)
    from v show "reachable g s v" by (simp add: reachable_self)
    from v assms show "?d ! v = int (distance g s v)" by (simp add: distance_self)
    from v assms wh show "?d ! v < int (?n - whites ?c)" by simp
  next
    fix v w
    assume "v < ?n \<and> get_color ?c v = black_color \<and> w \<in> set (out_edges g v)"
    then show "get_color ?c w \<noteq> white_color" by (simp add: col split: if_splits)
  qed
qed

lemma settled_exact:
  assumes "settled g s d color" and "t < length g" and "get_color color t \<noteq> white_color"
  shows "d ! t = shortest_path_degree g s t"
  using assms by (simp add: settled_def shortest_path_degree_def)

lemma settled_final:
  assumes st: "settled g s d color" and cl: "closed_graph g"
    and nogray: "\<forall>v. get_color color v \<noteq> gray_color" and t: "t < length g"
  shows "d ! t = shortest_path_degree g s t"
proof (cases "get_color color t = white_color")
  case False
  with st t show ?thesis by (rule settled_exact)
next
  case True
  note s = settledD(3) [OF st] and cs = settledD(4) [OF st]
    and inf = settledD(5) [OF st True] and closure = settledD(9) [OF st]
  have "\<not> reachable g s t"
    unfolding reachable_def
  proof
    assume "\<exists>k. walk g s k t"
    then obtain k where "walk g s k t" ..
    from walk_first_white [OF cs this True] obtain j p y where
      p: "walk g s j p" and cp: "get_color color p \<noteq> white_color"
      and y: "y \<in> set (out_edges g p)" "get_color color y = white_color"
      by blast
    from nogray cp have "get_color color p = black_color"
      by (cases "get_color color p") simp_all
    from closure [OF walk_in_range [OF cl s p] this y(1)] y(2) show False by simp
  qed
  with inf show ?thesis by (simp add: shortest_path_degree_def)
qed

lemma discover_step:
  assumes vis: "visiting g s d color u" and cl: "closed_graph g"
    and small: "length g < 2 ^ 31"
    and e: "v \<in> set (out_edges g u)" and w: "get_color color v = white_color"
  shows "to_int (d ! u + 1) = d ! u + 1"
    and "closed_plus (d ! u) 1 = d ! u + 1"
    and "d ! u + 1 < INT_MAX"
    and "d ! u + 1 = shortest_path_degree g s v"
    and "visiting g s (d[v := d ! u + 1]) (color[v := gray_color]) u"
proof -
  let ?n = "length g"
  let ?d = "d[v := d ! u + 1]" and ?c = "color[v := gray_color]"
  from vis have st: "settled g s d color" and gu: "get_color color u = gray_color"
    and least: "\<And>x. get_color color x = gray_color \<Longrightarrow> d ! u \<le> d ! x"
    by (simp_all add: visiting_def)
  note len = settledD(1, 2) [OF st] and s = settledD(3) [OF st] and cs = settledD(4) [OF st]
    and inf = settledD(5) [OF st] and closure = settledD(9) [OF st]
  have exact: "reachable g s x \<and> d ! x = int (distance g s x) \<and> d ! x < int (?n - whites color)"
    if "x < ?n" "get_color color x \<noteq> white_color" for x
    using settledD(6, 7, 8) [OF st that] by simp
  from gu len have u: "u < ?n" by (auto dest: get_color_gray_in_range)
  from w len have v: "v < ?n" by (auto dest: get_color_white_in_range)
  from w gu have vu: "v \<noteq> u" by auto
  note dv = discovered_distance [OF vis cl e w]
  from exact [OF u] gu have du: "d ! u = int (distance g s u)"
    and bu: "d ! u < int (?n - whites color)" by simp_all
  from whites_update_gray [OF w] have wh: "Suc (whites ?c) = whites color" .
  from whites_le_length [of color] len have wl: "whites color \<le> ?n" by simp
  from wh wl have grow: "int (?n - whites ?c) = int (?n - whites color) + 1" by simp
  from bu wh wl small have lt: "d ! u + 1 < 2 ^ 31 - 1" by simp
  from du have nn: "0 \<le> d ! u" by simp
  from lt nn show ti: "to_int (d ! u + 1) = d ! u + 1" by (simp add: to_int_small)
  from lt show "d ! u + 1 < INT_MAX" by (simp add: INT_MAX_def)
  from lt ti show "closed_plus (d ! u) 1 = d ! u + 1"
    by (simp add: closed_plus_def INT_MAX_def)
  from dv du show dist_v: "d ! u + 1 = shortest_path_degree g s v"
    by (simp add: shortest_path_degree_def)
  have col: "get_color ?c x = (if x = v then gray_color else get_color color x)" for x
    using v len by (simp add: get_color_update)
  have dx: "?d ! x = (if x = v then d ! u + 1 else d ! x)" for x
    using v len by (simp add: nth_list_update)
  have dvv: "?d ! v = int (distance g s v)" and dvb: "?d ! v < int (?n - whites ?c)"
    using dx [of v] dv(2) du bu grow by simp_all
  have "settled g s ?d ?c"
    unfolding settled_def
  proof (intro conjI allI impI)
    show "length ?d = ?n" "length ?c = ?n" "s < ?n" using len s by simp_all
    show "get_color ?c s \<noteq> white_color" using cs by (simp add: col)
  next
    fix x
    assume "get_color ?c x = white_color"
    then have "x \<noteq> v" "get_color color x = white_color" by (simp_all add: col split: if_splits)
    with inf show "?d ! x = INT_MAX" by (simp add: dx)
  next
    fix x
    assume a: "x < ?n \<and> get_color ?c x \<noteq> white_color"
    show "reachable g s x"
    proof (cases "x = v")
      case True with dv show ?thesis by simp
    next
      case False with a exact [of x] show ?thesis by (simp add: col)
    qed
    show "?d ! x = int (distance g s x)"
    proof (cases "x = v")
      case True with dvv show ?thesis by simp
    next
      case False with a exact [of x] show ?thesis by (simp add: col dx)
    qed
    show "?d ! x < int (?n - whites ?c)"
    proof (cases "x = v")
      case True with dvb show ?thesis by simp
    next
      case False with a exact [of x] grow show ?thesis by (simp add: col dx)
    qed
  next
    fix x y
    assume a: "x < ?n \<and> get_color ?c x = black_color \<and> y \<in> set (out_edges g x)"
    then have "x \<noteq> v" "get_color color x = black_color" by (simp_all add: col split: if_splits)
    with a closure [of x y] show "get_color ?c y \<noteq> white_color" by (simp add: col)
  qed
  moreover from gu vu have "get_color ?c u = gray_color" by (simp add: col)
  moreover have "?d ! u \<le> ?d ! x" if "get_color ?c x = gray_color" for x
  proof (cases "x = v")
    case True with vu show ?thesis by (simp add: dx)
  next
    case False with that least [of x] vu show ?thesis by (simp add: col dx)
  qed
  ultimately show "visiting g s ?d ?c u" by (simp add: visiting_def)
qed

lemma finish_step:
  assumes vis: "visiting g s d color u"
    and all: "\<forall>w \<in> set (out_edges g u). get_color color w \<noteq> white_color"
  shows "settled g s d (color[u := black_color])"
proof -
  let ?c = "color[u := black_color]"
  from vis have st: "settled g s d color" and gu: "get_color color u = gray_color"
    by (simp_all add: visiting_def)
  from gu have ur: "u < length color" by (rule get_color_gray_in_range)
  have col: "get_color ?c x = (if x = u then black_color else get_color color x)" for x
    using ur by (simp add: get_color_update)
  from gu have wh: "whites ?c = whites color" by (simp add: whites_update_nonwhite)
  from st all gu show ?thesis
    unfolding settled_def wh col by auto
qed

section \<open>Breadth first search returns the distance\<close>

definition bfs_queue :: "int list \<Rightarrow> default_color_type list \<Rightarrow> Vertex list \<Rightarrow> bool" where
  \<comment> \<open>between two iterations: the queue holds the gray vertices, ordered by distance, on
      at most two levels\<close>
  "bfs_queue d color Q =
     (distinct Q \<and> (\<forall>v. v \<in> set Q \<longleftrightarrow> get_color color v = gray_color)
      \<and> sorted (map (\<lambda>v. d ! v) Q) \<and> (\<forall>q \<in> set Q. d ! q \<le> d ! hd Q + 1))"

definition bfs_rest ::
  "int list \<Rightarrow> default_color_type list \<Rightarrow> Vertex list \<Rightarrow> Vertex \<Rightarrow> bool" where
  \<comment> \<open>while the out-edges of the dequeued vertex \<open>u\<close> are examined\<close>
  "bfs_rest d color Q u =
     (distinct Q \<and> u \<notin> set Q
      \<and> (\<forall>v. v = u \<or> v \<in> set Q \<longleftrightarrow> get_color color v = gray_color)
      \<and> sorted (map (\<lambda>v. d ! v) Q) \<and> (\<forall>q \<in> set Q. d ! q \<le> d ! u + 1))"

lemma bfs_restD:
  assumes "bfs_rest d color Q u"
  shows "distinct Q" and "u \<notin> set Q"
    and "\<And>v. v = u \<or> v \<in> set Q \<longleftrightarrow> get_color color v = gray_color"
    and "sorted (map (\<lambda>v. d ! v) Q)" and "\<And>q. q \<in> set Q \<Longrightarrow> d ! q \<le> d ! u + 1"
  using assms unfolding bfs_rest_def by blast+

lemma bfs_dequeue:
  assumes "settled g s d color" and "bfs_queue d color (u # Q)"
  shows "visiting g s d color u" and "bfs_rest d color Q u"
proof -
  from assms(2) have dist: "distinct (u # Q)"
    and gray: "\<And>v. v \<in> set (u # Q) \<longleftrightarrow> get_color color v = gray_color"
    and sorted: "sorted (map (\<lambda>v. d ! v) (u # Q))"
    and level': "\<And>q. q \<in> set (u # Q) \<Longrightarrow> d ! q \<le> d ! hd (u # Q) + 1"
    unfolding bfs_queue_def by blast+
  from level' have level: "d ! q \<le> d ! u + 1" if "q \<in> set (u # Q)" for q
    using that by simp
  from gray [of u] have gu: "get_color color u = gray_color" by simp
  have least: "d ! u \<le> d ! x" if "get_color color x = gray_color" for x
  proof -
    from that gray [of x] have "x = u \<or> x \<in> set Q" by simp
    with sorted show ?thesis by auto
  qed
  with assms(1) gu show "visiting g s d color u" by (simp add: visiting_def)
  show "bfs_rest d color Q u"
    unfolding bfs_rest_def
  proof (intro conjI allI ballI)
    from dist show "distinct Q" "u \<notin> set Q" by simp_all
    from sorted show "sorted (map (\<lambda>v. d ! v) Q)" by simp
  next
    fix v
    from gray [of v] show "v = u \<or> v \<in> set Q \<longleftrightarrow> get_color color v = gray_color" by simp
  next
    fix q
    assume "q \<in> set Q"
    with level [of q] show "d ! q \<le> d ! u + 1" by simp
  qed
qed

lemma bfs_discover:
  assumes vis: "visiting g s d color u" and rest: "bfs_rest d color Q u"
    and w: "get_color color v = white_color" and len: "length d = length color"
  shows "bfs_rest (d[v := d ! u + 1]) (color[v := gray_color]) (Q @ [v]) u"
proof -
  let ?d = "d[v := d ! u + 1]" and ?c = "color[v := gray_color]"
  note dist = bfs_restD(1) [OF rest] and uQ = bfs_restD(2) [OF rest]
    and gray = bfs_restD(3) [OF rest] and sorted = bfs_restD(4) [OF rest]
    and level = bfs_restD(5) [OF rest]
  from w have v: "v < length color" by (rule get_color_white_in_range)
  from gray [of v] w have vQ: "v \<notin> set Q" and vu: "v \<noteq> u" by auto
  have col: "get_color ?c x = (if x = v then gray_color else get_color color x)" for x
    using v by (simp add: get_color_update)
  have dx: "?d ! x = (if x = v then d ! u + 1 else d ! x)" for x
    using v len by (simp add: nth_list_update)
  from vQ have same: "map (\<lambda>x. ?d ! x) Q = map (\<lambda>x. d ! x) Q" by (auto simp: dx)
  show ?thesis
    unfolding bfs_rest_def
  proof (intro conjI allI ballI)
    from dist vQ show "distinct (Q @ [v])" by simp
    from uQ vu show "u \<notin> set (Q @ [v])" by simp
    from sorted level show "sorted (map (\<lambda>x. ?d ! x) (Q @ [v]))"
      by (simp add: sorted_append same) (simp add: dx)
  next
    fix x
    from gray [of x] show "x = u \<or> x \<in> set (Q @ [v]) \<longleftrightarrow> get_color ?c x = gray_color"
      by (cases "x = v") (simp_all add: col)
  next
    fix q
    assume "q \<in> set (Q @ [v])"
    then have "q = v \<or> q \<in> set Q" by auto
    then show "?d ! q \<le> ?d ! u + 1"
    proof
      assume "q = v"
      with vu show ?thesis by (simp add: dx)
    next
      assume q: "q \<in> set Q"
      with vQ have "q \<noteq> v" by auto
      with level [OF q] vu show ?thesis by (simp add: dx)
    qed
  qed
qed

lemma bfs_finish:
  assumes vis: "visiting g s d color u" and rest: "bfs_rest d color Q u"
  shows "bfs_queue d (color[u := black_color]) Q"
proof -
  let ?c = "color[u := black_color]"
  from vis have gu: "get_color color u = gray_color"
    and least: "\<And>x. get_color color x = gray_color \<Longrightarrow> d ! u \<le> d ! x"
    by (simp_all add: visiting_def)
  note dist = bfs_restD(1) [OF rest] and uQ = bfs_restD(2) [OF rest]
    and gray = bfs_restD(3) [OF rest] and sorted = bfs_restD(4) [OF rest]
    and level = bfs_restD(5) [OF rest]
  from gu have ur: "u < length color" by (rule get_color_gray_in_range)
  have col: "get_color ?c x = (if x = u then black_color else get_color color x)" for x
    using ur by (simp add: get_color_update)
  show ?thesis
    unfolding bfs_queue_def
  proof (intro conjI allI ballI)
    from dist show "distinct Q" .
    from sorted show "sorted (map (\<lambda>v. d ! v) Q)" .
  next
    fix x
    from gray [of x] uQ show "x \<in> set Q \<longleftrightarrow> get_color ?c x = gray_color"
      by (cases "x = u") (simp_all add: col)
  next
    fix q
    assume q: "q \<in> set Q"
    then have "hd Q \<in> set Q" by (cases Q) auto
    with gray [of "hd Q"] have "get_color color (hd Q) = gray_color" by simp
    from least [OF this] level [OF q] show "d ! q \<le> d ! hd Q + 1" by simp
  qed
qed

lemma bfs_out_edges_nonwhite:
  assumes "get_color color a \<noteq> white_color"
    and "bfs_out_edges stop_vertex u es (d, color, Q) = Inr (d', color', Q')"
  shows "get_color color' a \<noteq> white_color"
  using bfs_out_edges_keeps [OF assms(1), of stop_vertex u es d Q d' color' Q'] assms(2)
  by simp

lemma bfs_out_edges_correct:
  assumes cl: "closed_graph g" and small: "length g < 2 ^ 31"
    and vis: "visiting g s d color u" and rest: "bfs_rest d color Q u"
    and es: "set es \<subseteq> set (out_edges g u)" and t: "get_color color t = white_color"
  shows "(bfs_out_edges t u es (d, color, Q) = Inl d' \<longrightarrow> d' ! t = shortest_path_degree g s t)
       \<and> (bfs_out_edges t u es (d, color, Q) = Inr (d', color', Q') \<longrightarrow>
            visiting g s d' color' u \<and> bfs_rest d' color' Q' u
            \<and> get_color color' t = white_color
            \<and> (\<forall>w \<in> set es. get_color color' w \<noteq> white_color))"
  using vis rest es t
proof (induction es arbitrary: d color Q)
  case Nil
  then show ?case by auto
next
  case (Cons v es)
  from Cons.prems(3) have e: "v \<in> set (out_edges g u)" and es': "set es \<subseteq> set (out_edges g u)"
    by simp_all
  from Cons.prems(1) have st: "settled g s d color" by (simp add: visiting_def)
  note len = settledD(1, 2) [OF st]
  show ?case
  proof (cases "get_color color v = white_color")
    case white: True
    note ds = discover_step [OF Cons.prems(1) cl small e white]
    let ?d = "d[v := d ! u + 1]" and ?c = "color[v := gray_color]"
    from white len have v: "v < length d" by (auto dest: get_color_white_in_range)
    show ?thesis
    proof (cases "v = t")
      case True
      with white ds(1, 4) v show ?thesis by (auto simp: Let_def)
    next
      case False
      from bfs_discover [OF Cons.prems(1, 2) white] len
      have rest': "bfs_rest ?d ?c (Q @ [v]) u" by simp
      from Cons.prems(4) False white have t': "get_color ?c t = white_color"
        by (simp add: get_color_update)
      note ih = Cons.IH [OF ds(5) rest' es' t']
      have v': "get_color ?c v \<noteq> white_color"
        using white by (simp add: get_color_update get_color_white_in_range)
      have step: "bfs_out_edges t u (v # es) (d, color, Q) = bfs_out_edges t u es (?d, ?c, Q @ [v])"
        using white False ds(1) by (simp add: Let_def)
      from ih bfs_out_edges_nonwhite [OF v', of t u es ?d "Q @ [v]" d' color' Q']
      show ?thesis unfolding step by auto
    qed
  next
    case False
    note ih = Cons.IH [OF Cons.prems(1, 2) es' Cons.prems(4)]
    have step: "bfs_out_edges t u (v # es) (d, color, Q) = bfs_out_edges t u es (d, color, Q)"
      using False by simp
    from ih bfs_out_edges_nonwhite [OF False, of t u es d Q d' color' Q']
    show ?thesis unfolding step by auto
  qed
qed

lemma bfs_visit_loop_correct:
  "closed_graph g \<Longrightarrow> length g < 2 ^ 31 \<Longrightarrow> settled g s d color \<Longrightarrow> bfs_queue d color Q
   \<Longrightarrow> get_color color t = white_color
   \<Longrightarrow> bfs_visit_loop g t d color Q ! t = shortest_path_degree g s t"
proof (induction g t d color Q rule: bfs_visit_loop.induct)
  case (1 g t d color Q)
  note cl = "1.prems"(1) and small = "1.prems"(2) and st = "1.prems"(3)
    and qu = "1.prems"(4) and tw = "1.prems"(5)
  from tw settledD(2) [OF st] have t: "t < length g"
    by (auto dest: get_color_white_in_range)
  show ?case
  proof (cases Q)
    case Nil
    with qu have "\<forall>v. get_color color v \<noteq> gray_color" by (simp add: bfs_queue_def)
    from settled_final [OF st cl this t] Nil show ?thesis
      by (simp add: bfs_visit_loop_Nil)
  next
    case (Cons u Q')
    note dq = bfs_dequeue [OF st qu [unfolded Cons]]
    show ?thesis
    proof (cases "bfs_out_edges t u (out_edges g u) (d, color, Q')")
      case (Inl d')
      with bfs_out_edges_correct [OF cl small dq subset_refl tw, of d']
      show ?thesis by (simp add: Cons bfs_visit_loop_Inl [OF Inl])
    next
      case (Inr r)
      obtain d' color' Q'' where r: "r = (d', color', Q'')" by (cases r)
      from bfs_out_edges_correct [OF cl small dq subset_refl tw, of d' color' Q''] Inr r
      have vis: "visiting g s d' color' u" and rest: "bfs_rest d' color' Q'' u"
        and tw': "get_color color' t = white_color"
        and all: "\<forall>w \<in> set (out_edges g u). get_color color' w \<noteq> white_color"
        by simp_all
      from vis have "get_color color' u = gray_color" by (simp add: visiting_def)
      with tw' have "t \<noteq> u" by auto
      with tw' have tw'': "get_color (color'[u := black_color]) t = white_color"
        by (simp add: get_color_update)
      from "1.IH" [OF Cons Inr r [symmetric] refl cl small finish_step [OF vis all]
          bfs_finish [OF vis rest] tw'']
      show ?thesis by (simp add: Cons bfs_visit_loop_Inr [OF Inr [unfolded r]])
    qed
  qed
qed

lemma friendship_degree_bfs_correct:
  assumes cl: "closed_graph g" and small: "num_vertices g < 2 ^ 31"
    and s: "s < num_vertices g" and t: "t < num_vertices g" and st: "s \<noteq> t"
  shows "friendship_degree_bfs (s, t) g = shortest_path_degree g s t"
proof -
  let ?n = "length g"
  let ?c = "(replicate ?n white_color)[s := gray_color]"
  let ?d = "(replicate ?n INT_MAX)[s := 0]"
  from s have s': "s < ?n" by (simp add: num_vertices_def)
  have col: "get_color ?c v = (if v = s then gray_color
                               else if v < ?n then white_color else black_color)" for v
    using s' by (simp add: get_color_update) (simp add: get_color_def)
  have "bfs_queue ?d ?c [s]" by (simp add: bfs_queue_def col)
  moreover from t st have "get_color ?c t = white_color" by (simp add: col num_vertices_def)
  moreover from small have "length g < 2 ^ 31" by (simp add: num_vertices_def)
  ultimately have "bfs_visit_loop g t ?d ?c [s] ! t = shortest_path_degree g s t"
    using bfs_visit_loop_correct [OF cl _ settled_init [OF s']] by blast
  then show ?thesis
    by (simp add: friendship_degree_bfs_def breadth_first_search_def num_vertices_def)
qed

section \<open>Dijkstra with unit weights returns the distance\<close>

definition dij_queue :: "default_color_type list \<Rightarrow> Vertex list \<Rightarrow> bool" where
  \<comment> \<open>between two iterations: the queue holds the gray vertices\<close>
  "dij_queue color Q = (distinct Q \<and> (\<forall>v. v \<in> set Q \<longleftrightarrow> get_color color v = gray_color))"

definition dij_rest :: "default_color_type list \<Rightarrow> Vertex list \<Rightarrow> Vertex \<Rightarrow> bool" where
  "dij_rest color Q u =
     (distinct Q \<and> u \<notin> set Q
      \<and> (\<forall>v. v = u \<or> v \<in> set Q \<longleftrightarrow> get_color color v = gray_color))"

lemma arg_min_list_least:
  fixes f :: "'a \<Rightarrow> int"
  assumes "x \<in> set xs"
  shows "f (arg_min_list f xs) \<le> f x"
proof -
  from assms have ne: "xs \<noteq> []" by auto
  from f_arg_min_list_f [OF ne, of f] assms show ?thesis by simp
qed

lemma dij_dequeue:
  assumes st: "settled g s d color" and qu: "dij_queue color Q" and ne: "Q \<noteq> []"
  shows "visiting g s d color (arg_min_list (\<lambda>v. d ! v) Q)"
    and "dij_rest color (remove1 (arg_min_list (\<lambda>v. d ! v) Q) Q) (arg_min_list (\<lambda>v. d ! v) Q)"
proof -
  let ?u = "arg_min_list (\<lambda>v. d ! v) Q"
  from qu have dist: "distinct Q" and gray: "\<And>v. v \<in> set Q \<longleftrightarrow> get_color color v = gray_color"
    unfolding dij_queue_def by blast+
  from ne have uQ: "?u \<in> set Q" by (rule arg_min_list_in)
  with gray [of ?u] have gu: "get_color color ?u = gray_color" by simp
  have "d ! ?u \<le> d ! x" if "get_color color x = gray_color" for x
  proof -
    from that gray [of x] have "x \<in> set Q" by simp
    then show ?thesis by (rule arg_min_list_least)
  qed
  with st gu show "visiting g s d color ?u" by (simp add: visiting_def)
  show "dij_rest color (remove1 ?u Q) ?u"
    unfolding dij_rest_def
  proof (intro conjI allI)
    from dist show "distinct (remove1 ?u Q)" by simp
    from dist show "?u \<notin> set (remove1 ?u Q)" by simp
  next
    fix v
    from dist uQ gray [of v]
    show "v = ?u \<or> v \<in> set (remove1 ?u Q) \<longleftrightarrow> get_color color v = gray_color"
      by (cases "v = ?u") simp_all
  qed
qed

lemma dij_discover:
  assumes rest: "dij_rest color Q u" and w: "get_color color v = white_color"
  shows "dij_rest (color[v := gray_color]) (Q @ [v]) u"
proof -
  let ?c = "color[v := gray_color]"
  from rest have dist: "distinct Q" and uQ: "u \<notin> set Q"
    and gray: "\<And>x. x = u \<or> x \<in> set Q \<longleftrightarrow> get_color color x = gray_color"
    unfolding dij_rest_def by blast+
  from w have v: "v < length color" by (rule get_color_white_in_range)
  from gray [of v] w have vQ: "v \<notin> set Q" and vu: "v \<noteq> u" by auto
  have col: "get_color ?c x = (if x = v then gray_color else get_color color x)" for x
    using v by (simp add: get_color_update)
  show ?thesis
    unfolding dij_rest_def
  proof (intro conjI allI)
    from dist vQ show "distinct (Q @ [v])" by simp
    from uQ vu show "u \<notin> set (Q @ [v])" by simp
  next
    fix x
    from gray [of x] show "x = u \<or> x \<in> set (Q @ [v]) \<longleftrightarrow> get_color ?c x = gray_color"
      by (cases "x = v") (simp_all add: col)
  qed
qed

lemma dij_finish:
  assumes rest: "dij_rest color Q u"
  shows "dij_queue (color[u := black_color]) Q"
proof -
  let ?c = "color[u := black_color]"
  from rest have dist: "distinct Q" and uQ: "u \<notin> set Q"
    and gray: "\<And>x. x = u \<or> x \<in> set Q \<longleftrightarrow> get_color color x = gray_color"
    unfolding dij_rest_def by blast+
  from gray [of u] have "u < length color" by (simp add: get_color_gray_in_range)
  then have col: "get_color ?c x = (if x = u then black_color else get_color color x)" for x
    by (simp add: get_color_update)
  show ?thesis
    unfolding dij_queue_def
  proof (intro conjI allI)
    from dist show "distinct Q" .
  next
    fix x
    from gray [of x] uQ show "x \<in> set Q \<longleftrightarrow> get_color ?c x = gray_color"
      by (cases "x = u") (simp_all add: col)
  qed
qed

text \<open>An edge to a vertex that is already discovered is not relaxed.\<close>

lemma relax_target_discovered:
  assumes vis: "visiting g s d color u" and cl: "closed_graph g"
    and small: "length g < 2 ^ 31"
    and e: "v \<in> set (out_edges g u)" and nw: "get_color color v \<noteq> white_color"
  shows "relax_target u v 1 d = d"
proof -
  from vis have st: "settled g s d color" and gu: "get_color color u = gray_color"
    by (simp_all add: visiting_def)
  note len = settledD(1, 2) [OF st]
  from gu len have u: "u < length g" by (auto dest: get_color_gray_in_range)
  from closed_graph_at [OF cl e] have v: "v < length g" .
  from gu have nwu: "get_color color u \<noteq> white_color" by simp
  note du = settledD(7) [OF st u nwu] and bu = settledD(8) [OF st u nwu]
    and ru = settledD(6) [OF st u nwu]
  note dv = settledD(7) [OF st v nw]
  from bu small have lt: "d ! u + 1 < 2 ^ 31" by simp
  from du have nn: "0 \<le> d ! u" by simp
  from lt nn have "closed_plus (d ! u) 1 = d ! u + 1"
    by (simp add: closed_plus_def INT_MAX_def to_int_small)
  moreover from reachable_edge(2) [OF ru e] du dv have "d ! v \<le> d ! u + 1" by simp
  ultimately show ?thesis by (simp add: relax_target_def Let_def)
qed

lemma relax_target_white:
  assumes vis: "visiting g s d color u" and cl: "closed_graph g"
    and small: "length g < 2 ^ 31"
    and e: "v \<in> set (out_edges g u)" and w: "get_color color v = white_color"
  shows "relax_target u v 1 d = d[v := d ! u + 1]"
proof -
  from vis have st: "settled g s d color" by (simp add: visiting_def)
  note ds = discover_step [OF vis cl small e w]
  from settledD(5) [OF st w] ds(2, 3) show ?thesis
    by (simp add: relax_target_def Let_def)
qed

lemma dij_out_edges_correct:
  assumes cl: "closed_graph g" and small: "length g < 2 ^ 31"
    and vis: "visiting g s d color u" and rest: "dij_rest color Q u"
    and es: "fst ` set es \<subseteq> set (out_edges g u)" and uw: "\<forall>e \<in> set es. snd e = 1"
  shows "\<exists>d' color' Q'. dij_out_edges u es (d, color, Q) = Inr (d', color', Q')
           \<and> visiting g s d' color' u \<and> dij_rest color' Q' u
           \<and> (\<forall>x. get_color color x \<noteq> white_color \<longrightarrow> get_color color' x \<noteq> white_color)
           \<and> (\<forall>e \<in> set es. get_color color' (fst e) \<noteq> white_color)"
  using vis rest es uw
proof (induction es arbitrary: d color Q)
  case Nil
  then show ?case by simp
next
  case (Cons e es)
  from Cons.prems(4) obtain v where ev: "e = (v, 1)" by (cases e) auto
  from Cons.prems(3) ev have e: "v \<in> set (out_edges g u)"
    and es': "fst ` set es \<subseteq> set (out_edges g u)"
    by simp_all
  from Cons.prems(4) have uw': "\<forall>e \<in> set es. snd e = 1" by simp
  show ?case
  proof (cases "get_color color v = white_color")
    case white: True
    let ?d = "d[v := d ! u + 1]" and ?c = "color[v := gray_color]"
    note ds = discover_step [OF Cons.prems(1) cl small e white]
    from Cons.IH [OF ds(5) dij_discover [OF Cons.prems(2) white] es' uw']
    obtain d' color' Q' where r: "dij_out_edges u es (?d, ?c, Q @ [v]) = Inr (d', color', Q')"
      and i: "visiting g s d' color' u" "dij_rest color' Q' u"
      and mono: "\<forall>x. get_color ?c x \<noteq> white_color \<longrightarrow> get_color color' x \<noteq> white_color"
      and all: "\<forall>e \<in> set es. get_color color' (fst e) \<noteq> white_color"
      by blast
    from white have vr: "v < length color" by (rule get_color_white_in_range)
    then have col: "get_color ?c x = (if x = v then gray_color else get_color color x)" for x
      by (simp add: get_color_update)
    from mono have mono': "\<forall>x. get_color color x \<noteq> white_color \<longrightarrow> get_color color' x \<noteq> white_color"
      and v': "get_color color' v \<noteq> white_color"
      by (auto simp: col)
    have "dij_out_edges u (e # es) (d, color, Q) = Inr (d', color', Q')"
      using white r relax_target_white [OF Cons.prems(1) cl small e white] by (simp add: ev)
    with i mono' v' all show ?thesis by (simp add: ev)
  next
    case False
    from Cons.IH [OF Cons.prems(1, 2) es' uw']
    obtain d' color' Q' where r: "dij_out_edges u es (d, color, Q) = Inr (d', color', Q')"
      and i: "visiting g s d' color' u" "dij_rest color' Q' u"
      and mono: "\<forall>x. get_color color x \<noteq> white_color \<longrightarrow> get_color color' x \<noteq> white_color"
      and all: "\<forall>e \<in> set es. get_color color' (fst e) \<noteq> white_color"
      by blast
    have "dij_out_edges u (e # es) (d, color, Q) = Inr (d', color', Q')"
      using False r relax_target_discovered [OF Cons.prems(1) cl small e False]
      by (cases "get_color color v") (simp_all add: ev)
    with i mono False all show ?thesis by (simp add: ev)
  qed
qed

lemma dij_visit_loop_correct:
  "closed_graph (targets g) \<Longrightarrow> length g < 2 ^ 31 \<Longrightarrow> unit_weights g
   \<Longrightarrow> settled (targets g) s d color \<Longrightarrow> dij_queue color Q \<Longrightarrow> t < length g
   \<Longrightarrow> target_node = Some t \<or> target_node = None
   \<Longrightarrow> \<exists>d'. dij_visit_loop g target_node d color Q = Some d'
            \<and> d' ! t = shortest_path_degree (targets g) s t"
proof (induction g target_node d color Q rule: dij_visit_loop.induct)
  case (1 g target_node d color Q)
  note cl = "1.prems"(1) and small = "1.prems"(2) and uw = "1.prems"(3)
    and st = "1.prems"(4) and qu = "1.prems"(5) and t = "1.prems"(6) and tn = "1.prems"(7)
  from small have small': "length (targets g) < 2 ^ 31" by (simp add: length_targets)
  from t have t': "t < length (targets g)" by (simp add: length_targets)
  show ?case
  proof (cases "Q = []")
    case True
    with qu have "\<forall>v. get_color color v \<noteq> gray_color" by (simp add: dij_queue_def)
    from settled_final [OF st cl this t'] True show ?thesis
      by (simp add: dij_visit_loop_Nil)
  next
    case False
    let ?u = "arg_min_list (\<lambda>v. d ! v) Q"
    note dq = dij_dequeue [OF st qu False]
    have es: "fst ` set (out_edges g ?u) \<subseteq> set (out_edges (targets g) ?u)"
      by (simp add: out_edges_targets)
    from uw have uw': "\<forall>e \<in> set (out_edges g ?u). snd e = 1" by (simp add: unit_weights_iff)
    from dij_out_edges_correct [OF cl small' dq es uw']
    obtain d' color' Q' where
      r: "dij_out_edges ?u (out_edges g ?u) (d, color, remove1 ?u Q) = Inr (d', color', Q')"
      and vis: "visiting (targets g) s d' color' ?u" and rest: "dij_rest color' Q' ?u"
      and all: "\<forall>e \<in> set (out_edges g ?u). get_color color' (fst e) \<noteq> white_color"
      by blast
    from all have all': "\<forall>w \<in> set (out_edges (targets g) ?u). get_color color' w \<noteq> white_color"
      by (auto simp: out_edges_targets)
    note unfold = dij_visit_loop_unfold [OF False r, of target_node]
    show ?thesis
    proof (cases "target_node = Some ?u")
      case True
      with tn have tu: "t = ?u" by simp
      from vis have st': "settled (targets g) s d' color'"
        and "get_color color' ?u = gray_color"
        by (simp_all add: visiting_def)
      with tu have "get_color color' t \<noteq> white_color" by simp
      from settled_exact [OF st' t' this] True unfold show ?thesis by simp
    next
      case ne: False
      from "1.IH" [OF False refl r refl refl ne cl small uw finish_step [OF vis all']
          dij_finish [OF rest] t tn] ne unfold
      show ?thesis by simp
    qed
  qed
qed

lemma friendship_degree_dij_correct:
  assumes cl: "closed_graph (targets g)" and small: "num_vertices g < 2 ^ 31"
    and uw: "unit_weights g" and s: "s < num_vertices g" and t: "t < num_vertices g"
  shows "friendship_degree_dij (s, t) g use_early_stop
         = Some (shortest_path_degree (targets g) s t)"
proof -
  let ?n = "length g"
  let ?c = "(replicate ?n white_color)[s := gray_color]"
  let ?d = "(replicate ?n INT_MAX)[s := 0]"
  from s have s': "s < length (targets g)" by (simp add: num_vertices_def length_targets)
  from settled_init [OF s'] have st: "settled (targets g) s ?d ?c" by (simp add: length_targets)
  have col: "get_color ?c v = (if v = s then gray_color
                               else if v < ?n then white_color else black_color)" for v
    using s by (simp add: get_color_update num_vertices_def) (simp add: get_color_def)
  have qu: "dij_queue ?c [s]" by (simp add: dij_queue_def col)
  from small have small': "length g < 2 ^ 31" by (simp add: num_vertices_def)
  from t have t': "t < length g" by (simp add: num_vertices_def)
  from dij_visit_loop_correct [OF cl small' uw st qu t', of "Some t"]
    dij_visit_loop_correct [OF cl small' uw st qu t', of None]
  show ?thesis
    by (cases use_early_stop)
       (auto simp: friendship_degree_dij_def dijkstra_shortest_paths_def num_vertices_def)
qed

lemma walk_from_isolated: "walk g s k v \<Longrightarrow> out_edges g s = [] \<Longrightarrow> v = s"
  by (induction rule: walk.induct) auto

lemma isolated_unreachable:
  assumes "out_edges g s = []" and "s \<noteq> t"
  shows "shortest_path_degree g s t = INT_MAX"
  using assms walk_from_isolated [of g s _ t]
  by (auto simp: shortest_path_degree_def reachable_def)

definition with_unit_weights :: "Graph_bfs \<Rightarrow> Graph_dij" where
  \<comment> \<open>the graph of the Dijkstra variant with the same edges, each of weight 1\<close>
  "with_unit_weights g = map (map (\<lambda>v. (v, 1))) g"

lemma targets_with_unit_weights: "targets (with_unit_weights g) = g"
  by (simp add: targets_def with_unit_weights_def comp_def)

lemma unit_weights_with_unit_weights: "unit_weights (with_unit_weights g)"
  by (simp add: unit_weights_def with_unit_weights_def list_all_iff)

section \<open>Any order of the priority queue\<close>

text \<open>
  The priority queue of the library hands out some queued vertex of least distance; which
  one among several is a matter of the heap. \<open>dij_any_order\<close> is the search with any such
  choice: its last argument is a result that some order of the queue leads to. The result
  does not depend on the order, and the search modelled above is one of the runs.
\<close>

inductive dij_any_order ::
  "Graph_dij \<Rightarrow> Vertex option \<Rightarrow> int list \<Rightarrow> default_color_type list \<Rightarrow> Vertex list
   \<Rightarrow> int list option \<Rightarrow> bool" for g target_node where
  queue_empty: "dij_any_order g target_node d color [] (Some d)"
| negative_edge:
    "u \<in> set Q \<Longrightarrow> \<forall>v \<in> set Q. d ! u \<le> d ! v
     \<Longrightarrow> dij_out_edges u (out_edges g u) (d, color, remove1 u Q) = Inl x
     \<Longrightarrow> dij_any_order g target_node d color Q None"
| found:
    "u \<in> set Q \<Longrightarrow> \<forall>v \<in> set Q. d ! u \<le> d ! v
     \<Longrightarrow> dij_out_edges u (out_edges g u) (d, color, remove1 u Q) = Inr (d', color', Q')
     \<Longrightarrow> target_node = Some u
     \<Longrightarrow> dij_any_order g target_node d color Q (Some d')"
| finish:
    "u \<in> set Q \<Longrightarrow> \<forall>v \<in> set Q. d ! u \<le> d ! v
     \<Longrightarrow> dij_out_edges u (out_edges g u) (d, color, remove1 u Q) = Inr (d', color', Q')
     \<Longrightarrow> target_node \<noteq> Some u
     \<Longrightarrow> dij_any_order g target_node d' (color'[u := black_color]) Q' r
     \<Longrightarrow> dij_any_order g target_node d color Q r"

definition friendship_degree_dij_any :: "Connection \<Rightarrow> Graph_dij \<Rightarrow> int option \<Rightarrow> bool" where
  \<comment> \<open>\<^verbatim>\<open>friendship_degree\<close> with early stop, for any order of the priority queue\<close>
  "friendship_degree_dij_any connection g r =
     (\<exists>r'. dij_any_order g (Some (snd connection))
             ((replicate (num_vertices g) INT_MAX)[fst connection := 0])
             ((replicate (num_vertices g) white_color)[fst connection := gray_color])
             [fst connection] r'
           \<and> r = map_option (\<lambda>d. d ! snd connection) r')"

lemma dij_visit_loop_is_run:
  "dij_any_order g target_node d color Q (dij_visit_loop g target_node d color Q)"
proof (induction g target_node d color Q rule: dij_visit_loop.induct)
  case (1 g target_node d color Q)
  show ?case
  proof (cases "Q = []")
    case True
    then show ?thesis by (simp add: dij_visit_loop_Nil queue_empty)
  next
    case False
    let ?u = "arg_min_list (\<lambda>v. d ! v) Q"
    from False have uQ: "?u \<in> set Q" by (rule arg_min_list_in)
    have least: "\<forall>v \<in> set Q. d ! ?u \<le> d ! v" by (simp add: arg_min_list_least)
    show ?thesis
    proof (cases "dij_out_edges ?u (out_edges g ?u) (d, color, remove1 ?u Q)")
      case (Inl x)
      with False have "dij_visit_loop g target_node d color Q = None"
        by (subst dij_visit_loop.simps) (simp add: Let_def)
      with negative_edge [OF uQ least Inl] show ?thesis by simp
    next
      case (Inr r)
      obtain d' color' Q' where r: "r = (d', color', Q')" by (cases r)
      note unfold = dij_visit_loop_unfold [OF False Inr [unfolded r], of target_node]
      show ?thesis
      proof (cases "target_node = Some ?u")
        case True
        with found [OF uQ least Inr [unfolded r] True] unfold show ?thesis by simp
      next
        case ne: False
        from finish [OF uQ least Inr [unfolded r] ne
            "1.IH" [OF False refl Inr r [symmetric] refl ne]] unfold ne
        show ?thesis by simp
      qed
    qed
  qed
qed

lemma dij_dequeue_any:
  assumes st: "settled g s d color" and qu: "dij_queue color Q"
    and uQ: "u \<in> set Q" and least: "\<forall>v \<in> set Q. d ! u \<le> d ! v"
  shows "visiting g s d color u" and "dij_rest color (remove1 u Q) u"
proof -
  from qu have dist: "distinct Q" and gray: "\<And>v. v \<in> set Q \<longleftrightarrow> get_color color v = gray_color"
    unfolding dij_queue_def by blast+
  from uQ gray [of u] have gu: "get_color color u = gray_color" by simp
  have "d ! u \<le> d ! x" if "get_color color x = gray_color" for x
    using that gray [of x] least by simp
  with st gu show "visiting g s d color u" by (simp add: visiting_def)
  show "dij_rest color (remove1 u Q) u"
    unfolding dij_rest_def
  proof (intro conjI allI)
    from dist show "distinct (remove1 u Q)" by simp
    from dist show "u \<notin> set (remove1 u Q)" by simp
  next
    fix v
    from dist uQ gray [of v]
    show "v = u \<or> v \<in> set (remove1 u Q) \<longleftrightarrow> get_color color v = gray_color"
      by (cases "v = u") simp_all
  qed
qed

lemma dij_any_order_correct:
  assumes cl: "closed_graph (targets g)" and small: "length g < 2 ^ 31" and uw: "unit_weights g"
    and t: "t < length g" and tn: "target_node = Some t \<or> target_node = None"
  shows "dij_any_order g target_node d color Q r
         \<Longrightarrow> settled (targets g) s d color \<Longrightarrow> dij_queue color Q
         \<Longrightarrow> \<exists>d'. r = Some d' \<and> d' ! t = shortest_path_degree (targets g) s t"
proof (induction rule: dij_any_order.induct)
  case (queue_empty d color)
  then have "\<forall>v. get_color color v \<noteq> gray_color" by (simp add: dij_queue_def)
  from settled_final [OF queue_empty(1) cl this] t show ?case by (simp add: length_targets)
next
  case (negative_edge u Q d color x)
  from uw have "\<forall>e \<in> set (out_edges g u). snd e = 1" by (simp add: unit_weights_iff)
  from dij_out_edges_unit [OF this, of u "(d, color, remove1 u Q)"] negative_edge(3)
  show ?case by simp
next
  case (found u Q d color d' color' Q')
  note dq = dij_dequeue_any [OF found(5, 6, 1, 2)]
  have es: "fst ` set (out_edges g u) \<subseteq> set (out_edges (targets g) u)"
    by (simp add: out_edges_targets)
  from uw have uw': "\<forall>e \<in> set (out_edges g u). snd e = 1" by (simp add: unit_weights_iff)
  from small have small': "length (targets g) < 2 ^ 31" by (simp add: length_targets)
  from dij_out_edges_correct [OF cl small' dq es uw'] found(3)
  have vis: "visiting (targets g) s d' color' u" by auto
  then have st': "settled (targets g) s d' color'" and "get_color color' u = gray_color"
    by (simp_all add: visiting_def)
  moreover from found(4) tn have "t = u" by simp
  ultimately have "get_color color' t \<noteq> white_color" by simp
  from settled_exact [OF st' _ this] t show ?case by (simp add: length_targets)
next
  case (finish u Q d color d' color' Q' r)
  note dq = dij_dequeue_any [OF finish(7, 8, 1, 2)]
  have es: "fst ` set (out_edges g u) \<subseteq> set (out_edges (targets g) u)"
    by (simp add: out_edges_targets)
  from uw have uw': "\<forall>e \<in> set (out_edges g u). snd e = 1" by (simp add: unit_weights_iff)
  from small have small': "length (targets g) < 2 ^ 31" by (simp add: length_targets)
  from dij_out_edges_correct [OF cl small' dq es uw'] finish(3)
  have vis: "visiting (targets g) s d' color' u" and rest: "dij_rest color' Q' u"
    and all: "\<forall>e \<in> set (out_edges g u). get_color color' (fst e) \<noteq> white_color"
    by auto
  from all have all': "\<forall>w \<in> set (out_edges (targets g) u). get_color color' w \<noteq> white_color"
    by (auto simp: out_edges_targets)
  from finish.IH [OF finish_step [OF vis all'] dij_finish [OF rest]] show ?case .
qed

lemma friendship_degree_dij_any_correct:
  assumes cl: "closed_graph (targets g)" and small: "num_vertices g < 2 ^ 31"
    and uw: "unit_weights g" and s: "s < num_vertices g" and t: "t < num_vertices g"
  shows "friendship_degree_dij_any (s, t) g r \<longleftrightarrow> r = Some (shortest_path_degree (targets g) s t)"
proof -
  let ?n = "length g"
  let ?c = "(replicate ?n white_color)[s := gray_color]"
  let ?d = "(replicate ?n INT_MAX)[s := 0]"
  from s have s': "s < length (targets g)" by (simp add: num_vertices_def length_targets)
  from settled_init [OF s'] have st: "settled (targets g) s ?d ?c" by (simp add: length_targets)
  have col: "get_color ?c v = (if v = s then gray_color
                               else if v < ?n then white_color else black_color)" for v
    using s by (simp add: get_color_update num_vertices_def) (simp add: get_color_def)
  have qu: "dij_queue ?c [s]" by (simp add: dij_queue_def col)
  from small have small': "length g < 2 ^ 31" by (simp add: num_vertices_def)
  from t have t': "t < length g" by (simp add: num_vertices_def)
  show ?thesis
  proof
    assume "friendship_degree_dij_any (s, t) g r"
    then obtain r' where run: "dij_any_order g (Some t) ?d ?c [s] r'"
      and r: "r = map_option (\<lambda>d. d ! t) r'"
      by (auto simp: friendship_degree_dij_any_def num_vertices_def)
    from dij_any_order_correct [OF cl small' uw t' _ run st qu] r
    show "r = Some (shortest_path_degree (targets g) s t)" by auto
  next
    assume r: "r = Some (shortest_path_degree (targets g) s t)"
    from dij_visit_loop_correct [OF cl small' uw st qu t', of "Some t"]
    obtain d' where d': "dij_visit_loop g (Some t) ?d ?c [s] = Some d'"
      "d' ! t = shortest_path_degree (targets g) s t"
      by auto
    from dij_visit_loop_is_run [of g "Some t" ?d ?c "[s]"] d' r
    show "friendship_degree_dij_any (s, t) g r"
      by (auto simp: friendship_degree_dij_any_def num_vertices_def)
  qed
qed

definition scenario_graph :: Graph_bfs where
  \<comment> \<open>the chain 0 - 1 - 2 - 3 and the isolated vertex 4\<close>
  "scenario_graph = [[1], [0, 2], [1, 3], [2], []]"

text \<open>
  C2. On a graph of fewer than \<open>2^31\<close> vertices (so that every distance is an \<^verbatim>\<open>int\<close>)
  whose stored targets are vertices, for two different nodes \<open>s\<close> and \<open>t\<close>,
  \<^verbatim>\<open>friendship_degree\<close> returns the length of a shortest path from \<open>s\<close> to \<open>t\<close> when there
  is a path, and the sentinel \<open>INT_MAX\<close> when there is none; in particular for a start
  node without any edge. This holds for the breadth first search of the BFS variant and
  for the Dijkstra search of the other variant, on a graph whose edges all weigh 1,
  whichever vertex of least distance the priority queue hands out.
\<close>

theorem friendship_degree_is_distance:
  assumes "closed_graph g" and "num_vertices g < 2 ^ 31"
    and "s < num_vertices g" and "t < num_vertices g" and "s \<noteq> t"
    and "closed_graph (targets wg)" and "unit_weights wg" and "num_vertices wg < 2 ^ 31"
    and "s' < num_vertices wg" and "t' < num_vertices wg" and "s' \<noteq> t'"
  shows "friendship_degree_bfs (s, t) g
           = (if reachable g s t then int (distance g s t) else INT_MAX)
       \<and> friendship_degree_dij (s', t') wg True
           = Some (if reachable (targets wg) s' t' then int (distance (targets wg) s' t')
                   else INT_MAX)
       \<and> (\<forall>r. friendship_degree_dij_any (s', t') wg r \<longleftrightarrow>
              r = Some (if reachable (targets wg) s' t' then int (distance (targets wg) s' t')
                        else INT_MAX))
       \<and> (reachable g s t \<longrightarrow>
            walk g s (distance g s t) t \<and> (\<forall>k. walk g s k t \<longrightarrow> distance g s t \<le> k))
       \<and> (out_edges g s = [] \<longrightarrow> friendship_degree_bfs (s, t) g = INT_MAX)
       \<and> (out_edges wg s' = [] \<longrightarrow> friendship_degree_dij (s', t') wg True = Some INT_MAX)"
proof -
  note b = friendship_degree_bfs_correct [OF assms(1-5)]
  note d = friendship_degree_dij_correct [OF assms(6, 8, 7, 9, 10), of True]
  note any = friendship_degree_dij_any_correct [OF assms(6, 8, 7, 9, 10)]
  have "out_edges (targets wg) s' = []" if "out_edges wg s' = []"
    using that by (simp add: out_edges_targets)
  with b d any isolated_unreachable [OF _ assms(5), of g]
    isolated_unreachable [OF _ assms(11), of "targets wg"]
  show ?thesis
    by (auto simp: shortest_path_degree_def walk_distance distance_le)
qed

theorem friendship_degree_is_distance_witness:
  "closed_graph scenario_graph \<and> num_vertices scenario_graph < 2 ^ 31
   \<and> closed_graph (targets (with_unit_weights scenario_graph))
   \<and> unit_weights (with_unit_weights scenario_graph)
   \<and> friendship_degree_bfs (0, 3) scenario_graph = 3
   \<and> friendship_degree_dij (0, 3) (with_unit_weights scenario_graph) True = Some 3
   \<and> reachable scenario_graph 0 3 \<and> distance scenario_graph 0 3 = 3
   \<and> out_edges scenario_graph 4 = []
   \<and> friendship_degree_bfs (4, 0) scenario_graph = INT_MAX
   \<and> friendship_degree_dij (4, 0) (with_unit_weights scenario_graph) True = Some INT_MAX"
proof -
  let ?g = scenario_graph and ?w = "with_unit_weights scenario_graph"
  have cl: "closed_graph ?g" by code_simp
  have n: "num_vertices ?g < 2 ^ 31" "num_vertices ?w < 2 ^ 31"
    by (simp_all add: num_vertices_def scenario_graph_def with_unit_weights_def)
  have v: "0 < num_vertices ?g" "3 < num_vertices ?g" "4 < num_vertices ?g"
    "0 < num_vertices ?w" "3 < num_vertices ?w" "4 < num_vertices ?w"
    by (simp_all add: num_vertices_def scenario_graph_def with_unit_weights_def)
  have clw: "closed_graph (targets ?w)" by (simp add: targets_with_unit_weights cl)
  note uw = unit_weights_with_unit_weights [of ?g]
  have iso: "out_edges ?g 4 = []" "out_edges ?w 4 = []" by code_simp+
  have val: "friendship_degree_bfs (0, 3) ?g = 3" by code_simp
  have ne: "(0 :: nat) \<noteq> 3" "(4 :: nat) \<noteq> 0" by simp_all
  note a = friendship_degree_is_distance [OF cl n(1) v(1, 2) ne(1) clw uw n(2) v(4, 5) ne(1)]
  note b = friendship_degree_is_distance [OF cl n(1) v(3, 1) ne(2) clw uw n(2) v(6, 4) ne(2)]
  from a have a1: "friendship_degree_bfs (0, 3) ?g
      = (if reachable ?g 0 3 then int (distance ?g 0 3) else INT_MAX)"
    and a2: "friendship_degree_dij (0, 3) ?w True
      = Some (if reachable (targets ?w) 0 3 then int (distance (targets ?w) 0 3) else INT_MAX)"
    by blast+
  from a1 val have r: "reachable ?g 0 3" and d: "distance ?g 0 3 = 3"
    by (auto simp: INT_MAX_def split: if_splits)
  from a2 r d have dv: "friendship_degree_dij (0, 3) ?w True = Some 3"
    by (simp add: targets_with_unit_weights)
  from b iso have b4: "friendship_degree_bfs (4, 0) ?g = INT_MAX"
    and b5: "friendship_degree_dij (4, 0) ?w True = Some INT_MAX"
    by blast+
  from cl n(1) clw uw val dv r d iso(1) b4 b5 show ?thesis by blast
qed

text \<open>
  C4. On every graph of fewer than \<open>2^31\<close> vertices whose stored targets are vertices,
  for two different nodes, the Dijkstra search with early stop, run on the edges of the
  graph with weight 1 each, returns the degree that the breadth first search returns,
  whichever vertex of least distance its priority queue hands out.
\<close>

theorem bfs_dijkstra_same_degree:
  assumes "closed_graph g" and "num_vertices g < 2 ^ 31"
    and "s < num_vertices g" and "t < num_vertices g" and "s \<noteq> t"
    and "unit_weights wg" and "targets wg = g"
  shows "friendship_degree_dij (s, t) wg True = Some (friendship_degree_bfs (s, t) g)
       \<and> (\<forall>r. friendship_degree_dij_any (s, t) wg r \<longleftrightarrow>
              r = Some (friendship_degree_bfs (s, t) g))"
proof -
  from assms(7) have n: "num_vertices wg = num_vertices g"
    by (auto simp: num_vertices_def length_targets [symmetric])
  from assms(1) assms(7) have cl: "closed_graph (targets wg)" by simp
  from assms(2, 3, 4) n have w: "num_vertices wg < 2 ^ 31" "s < num_vertices wg"
    "t < num_vertices wg"
    by simp_all
  from friendship_degree_dij_correct [OF cl w(1) assms(6) w(2, 3), of True]
  have "friendship_degree_dij (s, t) wg True = Some (shortest_path_degree g s t)"
    by (simp add: assms(7))
  moreover from friendship_degree_dij_any_correct [OF cl w(1) assms(6) w(2, 3)]
  have "friendship_degree_dij_any (s, t) wg r \<longleftrightarrow> r = Some (shortest_path_degree g s t)" for r
    by (simp add: assms(7))
  ultimately show ?thesis
    using friendship_degree_bfs_correct [OF assms(1-5)] by simp
qed

theorem bfs_dijkstra_same_degree_witness:
  "closed_graph scenario_graph \<and> num_vertices scenario_graph < 2 ^ 31
   \<and> unit_weights (with_unit_weights scenario_graph)
   \<and> targets (with_unit_weights scenario_graph) = scenario_graph
   \<and> friendship_degree_dij (0, 3) (with_unit_weights scenario_graph) True
       = Some (friendship_degree_bfs (0, 3) scenario_graph)
   \<and> friendship_degree_dij (1, 4) (with_unit_weights scenario_graph) True
       = Some (friendship_degree_bfs (1, 4) scenario_graph)"
proof -
  let ?g = scenario_graph and ?w = "with_unit_weights scenario_graph"
  have cl: "closed_graph ?g" by code_simp
  have n: "num_vertices ?g < 2 ^ 31"
    by (simp add: num_vertices_def scenario_graph_def)
  have v: "0 < num_vertices ?g" "1 < num_vertices ?g" "3 < num_vertices ?g" "4 < num_vertices ?g"
    by (simp_all add: num_vertices_def scenario_graph_def)
  have ne: "(0 :: nat) \<noteq> 3" "(1 :: nat) \<noteq> 4" by simp_all
  note uw = unit_weights_with_unit_weights [of ?g]
  note tg = targets_with_unit_weights [of ?g]
  from bfs_dijkstra_same_degree [OF cl n v(1, 3) ne(1) uw tg]
    bfs_dijkstra_same_degree [OF cl n v(2, 4) ne(2) uw tg] cl n uw tg
  show ?thesis by blast
qed

end
